theory Spec2Isabelle
  imports Complex_Main "HOL-Library.AList" "HOL-Library.Multiset" "HOL-Library.Product_Lexorder"
begin

section \<open>Python slices and the chunker\<close>

text \<open>
  A slice bound \<open>i\<close> on a sequence of length \<open>n\<close>: a negative bound counts from the end,
  and every bound is clamped to \<open>0..n\<close>.
\<close>

definition py_bound :: "int \<Rightarrow> int \<Rightarrow> nat" where
  "py_bound n i = (if i < 0 then nat (max 0 (i + n)) else nat (min i n))"

definition py_slice :: "'a list \<Rightarrow> int \<Rightarrow> int \<Rightarrow> 'a list" where
  "py_slice xs i j =
     (let n = int (length xs); lo = py_bound n i; hi = py_bound n j
      in take (hi - lo) (drop lo xs))"

text \<open>
  The \<open>while\<close> loop of \<open>chunk_text\<close>. It does not return when \<open>size - overlap \<le> 0\<close> on a
  non-empty text, so it is a partial function and \<open>None\<close> is divergence.
\<close>

partial_function (option) chunk_loop ::
  "string \<Rightarrow> int \<Rightarrow> int \<Rightarrow> int \<Rightarrow> string list \<Rightarrow> string list option" where
  "chunk_loop text csize overlap start chunks =
     (if start < int (length text)
      then chunk_loop text csize overlap (start + (csize - overlap))
             (chunks @ [py_slice text start (start + csize)])
      else Some chunks)"

declare chunk_loop.simps [code]

definition chunk_text :: "string \<Rightarrow> int \<Rightarrow> int \<Rightarrow> string list option" where
  "chunk_text text csize overlap =
     (if text = [] then Some [] else chunk_loop text csize overlap 0 [])"

section \<open>Python values, JSON and metadata\<close>

text \<open>
  Metadata is an open mapping from string keys to arbitrary Python values. \<open>PSet\<close> and
  \<open>PBytes\<close> stand for the values \<open>json.dumps\<close> cannot encode. A \<open>dict\<close> is an
  association list with distinct keys, looked up with \<^const>\<open>map_of\<close>.
\<close>

datatype pyval =
    PNone
  | PBool bool
  | PInt int
  | PStr string
  | PList "pyval list"
  | PDict "(string \<times> pyval) list"
  | PSet "pyval list"
  | PBytes string

type_synonym pydict = "(string \<times> pyval) list"

datatype error =
    TypeError
  | AttributeError
  | KeyError
  | FileNotFoundError
  | RuntimeError
  | OperationalError
  | AssertionError
  | ValueError
  | IndexError

text \<open>\<open>json.dumps\<close> raises \<open>TypeError\<close> on a value it cannot encode, at any depth.\<close>

fun json_ok :: "pyval \<Rightarrow> bool" where
  "json_ok (PList xs) = list_all json_ok xs"
| "json_ok (PDict kvs) = list_all (\<lambda>kv. json_ok (snd kv)) kvs"
| "json_ok (PSet xs) = False"
| "json_ok (PBytes b) = False"
| "json_ok v = True"

text \<open>
  A JSON text is represented by the value it encodes: on the constructors that
  \<^const>\<open>json_ok\<close> accepts, \<open>json.loads (json.dumps v) = v\<close>.
\<close>

datatype json_text = JSON pyval

definition json_dumps :: "pyval \<Rightarrow> error + json_text" where
  "json_dumps v = (if json_ok v then Inr (JSON v) else Inl TypeError)"

fun json_loads :: "json_text \<Rightarrow> pyval" where
  "json_loads (JSON v) = v"

text \<open>\<open>json.loads(col or "{}")\<close> on a metadata column; \<open>None\<close> is SQL \<open>NULL\<close>.\<close>

definition load_meta :: "json_text option \<Rightarrow> pyval" where
  "load_meta col = (case col of None \<Rightarrow> PDict [] | Some j \<Rightarrow> json_loads j)"

text \<open>\<open>meta.get(key, default)\<close>: only a \<open>dict\<close> has the method.\<close>

definition py_get :: "pyval \<Rightarrow> string \<Rightarrow> pyval \<Rightarrow> error + pyval" where
  "py_get meta key dflt =
     (case meta of
        PDict d \<Rightarrow> (case map_of d key of None \<Rightarrow> Inr dflt | Some v \<Rightarrow> Inr v)
      | _ \<Rightarrow> Inl AttributeError)"

text \<open>
  \<open>str.lower\<close> is a parameter, \<open>lower\<close>, of everything that compares subjects: Python
  lowers by the Unicode tables. Only \<open>str\<close> has the method.
\<close>

definition py_lower :: "(string \<Rightarrow> string) \<Rightarrow> pyval \<Rightarrow> error + string" where
  "py_lower lower v = (case v of PStr s \<Rightarrow> Inr (lower s) | _ \<Rightarrow> Inl AttributeError)"

text \<open>The truth value of an \<open>Optional[str]\<close>: \<open>None\<close> and \<open>""\<close> are false.\<close>

definition subject_given :: "string option \<Rightarrow> bool" where
  "subject_given subject = (case subject of None \<Rightarrow> False | Some s \<Rightarrow> s \<noteq> [])"

text \<open>
  The test that makes the three scans skip a record:
  \<open>subject and meta.get('subject', '').lower() != subject.lower()\<close>. The right operand
  is evaluated, and can raise, only when \<open>subject\<close> is true.
\<close>

definition subject_skips :: "(string \<Rightarrow> string) \<Rightarrow> string option \<Rightarrow> pyval \<Rightarrow> error + bool" where
  "subject_skips lower subject meta =
     (case subject of
        None \<Rightarrow> Inr False
      | Some s \<Rightarrow>
          if s = [] then Inr False
          else (case py_get meta ''subject'' (PStr []) of
                  Inl e \<Rightarrow> Inl e
                | Inr v \<Rightarrow> (case py_lower lower v of
                              Inl e \<Rightarrow> Inl e
                            | Inr l \<Rightarrow> Inr (l \<noteq> lower s))))"

section \<open>DocumentStore: the SQLite tables\<close>

record row =
  row_id :: int
  row_content :: string
  row_metadata :: "json_text option"

text \<open>
  The database file: table \<open>documents\<close> and the FTS5 table \<open>docs_fts\<close>, each in insertion
  order. \<open>None\<close> is a missing file, which \<open>sqlite3.connect\<close> creates empty.
\<close>

record store =
  documents :: "row list"
  docs_fts :: "row list"

definition init_db :: "store option \<Rightarrow> store" where
  "init_db file =
     (case file of
        None \<Rightarrow> \<lparr>documents = [], docs_fts = []\<rparr>
      | Some st \<Rightarrow> st)"

text \<open>
  \<open>cur.lastrowid\<close> after an insert into an \<open>INTEGER PRIMARY KEY\<close> table without
  \<open>AUTOINCREMENT\<close>: 1 for an empty table, else one more than the largest rowid in the
  table. Rowids are signed 64-bit integers: when the largest rowid is \<open>2^63 - 1\<close>, SQLite
  probes for a random positive rowid that is not in use, and the insert fails
  (\<open>SQLITE_FULL\<close>, an \<open>OperationalError\<close>) when the probe finds none. The probe is the
  parameter \<open>pick\<close>: the rowid it settles on, or \<open>None\<close>; an answer that is in use or out
  of range counts as none.
\<close>

definition max_rowid :: int where
  "max_rowid = 9223372036854775807"

definition lastrowid :: "(row list \<Rightarrow> int option) \<Rightarrow> row list \<Rightarrow> error + int" where
  "lastrowid pick rows =
     (case rows of
        [] \<Rightarrow> Inr 1
      | r # rs \<Rightarrow>
          let m = fold max (map row_id rs) (row_id r)
          in if m < max_rowid then Inr (m + 1)
             else (case pick rows of
                     None \<Rightarrow> Inl OperationalError
                   | Some i \<Rightarrow>
                       if 0 < i \<and> i \<le> max_rowid \<and> i \<notin> set (map row_id rows) then Inr i
                       else Inl OperationalError))"

text \<open>
  \<open>DocumentStore.add\<close>. \<open>metadata or {}\<close> is \<open>{}\<close> for \<open>None\<close> and for the empty
  mapping; \<open>json.dumps\<close> runs before the two inserts.
\<close>

definition store_add ::
  "(row list \<Rightarrow> int option) \<Rightarrow> store \<Rightarrow> string \<Rightarrow> pydict option \<Rightarrow> error + (int \<times> store)" where
  "store_add pick st content metadata =
     (case json_dumps (PDict (case metadata of None \<Rightarrow> [] | Some m \<Rightarrow> m)) of
        Inl e \<Rightarrow> Inl e
      | Inr metadata_json \<Rightarrow>
          (case lastrowid pick (documents st) of
             Inl e \<Rightarrow> Inl e
           | Inr doc_id \<Rightarrow>
               let r = \<lparr>row_id = doc_id, row_content = content,
                        row_metadata = Some metadata_json\<rparr>
               in Inr (doc_id, \<lparr>documents = documents st @ [r], docs_fts = docs_fts st @ [r]\<rparr>)))"

record doc =
  doc_id :: int
  doc_content :: string
  doc_metadata :: pyval

definition row_doc :: "row \<Rightarrow> doc" where
  "row_doc r =
     \<lparr>doc_id = row_id r, doc_content = row_content r,
      doc_metadata = load_meta (row_metadata r)\<rparr>"

definition store_get :: "store \<Rightarrow> int \<Rightarrow> doc option" where
  "store_get st i =
     (case find (\<lambda>r. row_id r = i) (documents st) of
        None \<Rightarrow> None
      | Some r \<Rightarrow> Some (row_doc r))"

text \<open>
  SQL \<open>LIMIT n\<close>: the first \<open>n\<close> rows of the result; a negative \<open>n\<close> is no limit.
\<close>

definition sql_limit :: "int \<Rightarrow> 'a list \<Rightarrow> 'a list" where
  "sql_limit n rows = (if n < 0 then rows else take (nat n) rows)"

text \<open>
  The loop of \<open>DocumentStore.search_keyword\<close> over the fetched rows, with its
  \<open>continue\<close> and \<open>break\<close>.
\<close>

fun keyword_loop ::
  "(string \<Rightarrow> string) \<Rightarrow> int \<Rightarrow> string option \<Rightarrow> row list \<Rightarrow> doc list \<Rightarrow> error + doc list" where
  "keyword_loop lower k subject [] results = Inr results"
| "keyword_loop lower k subject (r # rows) results =
     (case subject_skips lower subject (load_meta (row_metadata r)) of
        Inl e \<Rightarrow> Inl e
      | Inr skip \<Rightarrow>
          if skip then keyword_loop lower k subject rows results
          else if k \<le> int (length (results @ [row_doc r])) then Inr (results @ [row_doc r])
          else keyword_loop lower k subject rows (results @ [row_doc r]))"

text \<open>
  The FTS5 engine is a parameter: \<open>fts tbl query\<close> is the answer to
  \<open>SELECT rowid, content, metadata FROM docs_fts WHERE docs_fts MATCH query\<close>, in the
  order the engine answers in, or the error it raises on a malformed query. The statement
  has no \<open>ORDER BY\<close>: the order is the engine's choice.
\<close>

definition store_search_keyword ::
  "(string \<Rightarrow> string) \<Rightarrow> (row list \<Rightarrow> string \<Rightarrow> error + row list) \<Rightarrow> store \<Rightarrow> string \<Rightarrow> int
     \<Rightarrow> string option \<Rightarrow> error + doc list" where
  "store_search_keyword lower fts st query k subject =
     (case fts (docs_fts st) query of
        Inl e \<Rightarrow> Inl e
      | Inr matched \<Rightarrow> keyword_loop lower k subject (sql_limit (k * 5) matched) [])"

text \<open>
  \<open>DocumentStore.list_documents\<close>. \<open>files_map\<close> is a \<open>dict\<close> in insertion order; a key
  must be hashable, and \<open>True\<close>, \<open>False\<close> are the keys \<open>1\<close>, \<open>0\<close>.
\<close>

record summary =
  sum_id :: int
  sum_filename :: pyval
  sum_subject :: pyval
  sum_type :: string
  sum_size :: string
  sum_date :: string
  sum_metadata :: pyval

definition py_key :: "pyval \<Rightarrow> error + pyval" where
  "py_key v =
     (case v of
        PList xs \<Rightarrow> Inl TypeError
      | PDict d \<Rightarrow> Inl TypeError
      | PSet xs \<Rightarrow> Inl TypeError
      | PBool b \<Rightarrow> Inr (PInt (if b then 1 else 0))
      | _ \<Rightarrow> Inr v)"

text \<open>
  \<open>os.path.splitext(filename)[1].replace('.', '') if filename != 'unknown' else 'txt'\<close>,
  with \<open>os.path.splitext\<close> a parameter.
\<close>

definition file_type :: "(string \<Rightarrow> string \<times> string) \<Rightarrow> pyval \<Rightarrow> error + string" where
  "file_type splitext filename =
     (if filename \<noteq> PStr ''unknown''
      then (case filename of
              PStr f \<Rightarrow> Inr (filter (\<lambda>c. c \<noteq> CHR ''.'') (snd (splitext f)))
            | _ \<Rightarrow> Inl TypeError)
      else Inr ''txt'')"

fun documents_loop ::
  "(string \<Rightarrow> string) \<Rightarrow> (string \<Rightarrow> string \<times> string) \<Rightarrow> string option \<Rightarrow> row list
     \<Rightarrow> (pyval \<times> summary) list \<Rightarrow> error + (pyval \<times> summary) list" where
  "documents_loop lower splitext subject [] files_map = Inr files_map"
| "documents_loop lower splitext subject (r # rows) files_map =
     (let meta = load_meta (row_metadata r) in
      case subject_skips lower subject meta of
        Inl e \<Rightarrow> Inl e
      | Inr skip \<Rightarrow>
          if skip then documents_loop lower splitext subject rows files_map
          else (case py_get meta ''filename'' (PStr ''unknown'') of
            Inl e \<Rightarrow> Inl e
          | Inr filename \<Rightarrow> (case py_get meta ''source_path'' filename of
            Inl e \<Rightarrow> Inl e
          | Inr source_path \<Rightarrow> (case py_key source_path of
            Inl e \<Rightarrow> Inl e
          | Inr key \<Rightarrow>
              if map_of files_map key \<noteq> None
              then documents_loop lower splitext subject rows files_map
              else (case py_get meta ''subject'' (PStr ''Uncategorized'') of
                Inl e \<Rightarrow> Inl e
              | Inr subj \<Rightarrow> (case file_type splitext filename of
                Inl e \<Rightarrow> Inl e
              | Inr ty \<Rightarrow>
                  documents_loop lower splitext subject rows
                    (files_map @
                      [(key, \<lparr>sum_id = row_id r, sum_filename = filename, sum_subject = subj,
                               sum_type = ty, sum_size = ''Unknown'', sum_date = ''Unknown'',
                               sum_metadata = meta\<rparr>)])))))))"

definition store_list_documents ::
  "(string \<Rightarrow> string) \<Rightarrow> (string \<Rightarrow> string \<times> string) \<Rightarrow> store \<Rightarrow> string option
     \<Rightarrow> error + summary list" where
  "store_list_documents lower splitext st subject =
     (case documents_loop lower splitext subject (documents st) [] of
        Inl e \<Rightarrow> Inl e
      | Inr files_map \<Rightarrow> Inr (map snd files_map))"

section \<open>FaissVectorStore: loading the persisted index\<close>

text \<open>
  An index object of the FAISS library: its class, its dimension and the vectors it holds
  under their ids. \<open>faiss.read_index\<close> is a parameter: it returns the index a file
  holds, or the error it raises on a file it cannot read.
\<close>

datatype index_class = IndexIDMap | IndexFlat

record faiss_index =
  ix_class :: index_class
  ix_dim :: nat
  ix_entries :: "(int \<times> real list) list"

record vstore =
  vs_dim :: nat
  vs_index_path :: string
  vs_index :: "faiss_index option"

datatype message = FailedToLoad error

text \<open>
  \<open>FaissVectorStore.load\<close>. The result is the store as the call leaves it and the
  exception raised, if any: \<open>self.index\<close> is assigned before the class is checked.
\<close>

definition load ::
  "('f \<Rightarrow> error + faiss_index) \<Rightarrow> (string \<Rightarrow> 'f option) \<Rightarrow> vstore \<Rightarrow> string option
     \<Rightarrow> vstore \<times> error option" where
  "load read_index files self path =
     (let path = (case path of None \<Rightarrow> vs_index_path self
                  | Some p \<Rightarrow> if p \<noteq> [] then p else vs_index_path self)
      in case files path of
           None \<Rightarrow> (self, Some FileNotFoundError)
         | Some f \<Rightarrow>
             (case read_index f of
                Inl e \<Rightarrow> (self, Some e)
              | Inr ix \<Rightarrow>
                  if ix_class ix \<noteq> IndexIDMap
                  then (self\<lparr>vs_index := Some ix\<rparr>, Some RuntimeError)
                  else (self\<lparr>vs_index := Some ix\<rparr>, None)))"

text \<open>
  \<open>FaissVectorStore._init_index\<close>: the store it leaves and the lines it prints.
\<close>

definition new_index :: "nat \<Rightarrow> faiss_index" where
  "new_index d = \<lparr>ix_class = IndexIDMap, ix_dim = d, ix_entries = []\<rparr>"

definition init_index ::
  "('f \<Rightarrow> error + faiss_index) \<Rightarrow> (string \<Rightarrow> 'f option) \<Rightarrow> vstore
     \<Rightarrow> vstore \<times> message list" where
  "init_index read_index files self =
     (if files (vs_index_path self) \<noteq> None
      then (case load read_index files self None of
              (self', None) \<Rightarrow> (self', [])
            | (self', Some e) \<Rightarrow>
                (self'\<lparr>vs_index := Some (new_index (vs_dim self'))\<rparr>, [FailedToLoad e]))
      else (self\<lparr>vs_index := Some (new_index (vs_dim self))\<rparr>, []))"

text \<open>\<open>FaissVectorStore.__init__\<close> and \<open>FaissRAG.load\<close>.\<close>

definition vstore_init ::
  "('f \<Rightarrow> error + faiss_index) \<Rightarrow> (string \<Rightarrow> 'f option) \<Rightarrow> nat \<Rightarrow> string
     \<Rightarrow> vstore \<times> message list" where
  "vstore_init read_index files d index_path =
     init_index read_index files \<lparr>vs_dim = d, vs_index_path = index_path, vs_index = None\<rparr>"

definition rag_load ::
  "('f \<Rightarrow> error + faiss_index) \<Rightarrow> (string \<Rightarrow> 'f option) \<Rightarrow> vstore \<Rightarrow> vstore \<times> error option" where
  "rag_load read_index files vs = load read_index files vs (Some (vs_index_path vs))"

section \<open>FaissRAG: search\<close>

record hit =
  hit_id :: int
  hit_score :: real
  hit_content :: string
  hit_metadata :: pyval

text \<open>
  The loop of \<open>search_similarity\<close> over the slots \<open>(scores[0][i], ids[0][i])\<close> that the
  vector index returned; \<open>-1\<close> is the id of an empty slot.
\<close>

fun similarity_loop ::
  "(string \<Rightarrow> string) \<Rightarrow> store \<Rightarrow> int \<Rightarrow> string option \<Rightarrow> (real \<times> int) list \<Rightarrow> hit list
     \<Rightarrow> error + hit list" where
  "similarity_loop lower st k subject [] results = Inr results"
| "similarity_loop lower st k subject ((s, i) # slots) results =
     (if i = - 1 then similarity_loop lower st k subject slots results
      else (case store_get st i of
        None \<Rightarrow> similarity_loop lower st k subject slots results
      | Some d \<Rightarrow> (case subject_skips lower subject (doc_metadata d) of
          Inl e \<Rightarrow> Inl e
        | Inr skip \<Rightarrow>
            if skip then similarity_loop lower st k subject slots results
            else (let h = \<lparr>hit_id = i, hit_score = s, hit_content = doc_content d,
                            hit_metadata = doc_metadata d\<rparr>
                  in if k \<le> int (length (results @ [h])) then Inr (results @ [h])
                     else similarity_loop lower st k subject slots (results @ [h])))))"

text \<open>
  Embedding the query, normalising it and searching the FAISS index are one parameter:
  \<open>vsearch query fetch_k\<close> is the row of slots for the query, best first, or the error
  raised. Scores are real numbers: the rounding of Python's floats is not modelled.
\<close>

definition search_similarity ::
  "(string \<Rightarrow> string) \<Rightarrow> (string \<Rightarrow> int \<Rightarrow> error + (real \<times> int) list) \<Rightarrow> store \<Rightarrow> string \<Rightarrow> int
     \<Rightarrow> string option \<Rightarrow> error + hit list" where
  "search_similarity lower vsearch st query k subject =
     (let fetch_k = (if subject_given subject then max (k * 10) 100 else k)
      in case vsearch query fetch_k of
           Inl e \<Rightarrow> Inl e
         | Inr slots \<Rightarrow> similarity_loop lower st k subject slots [])"

definition search_keyword ::
  "(string \<Rightarrow> string) \<Rightarrow> (row list \<Rightarrow> string \<Rightarrow> error + row list) \<Rightarrow> store \<Rightarrow> string \<Rightarrow> int
     \<Rightarrow> string option \<Rightarrow> error + doc list" where
  "search_keyword lower fts st query k subject =
     store_search_keyword lower fts st query k subject"

definition list_documents ::
  "(string \<Rightarrow> string) \<Rightarrow> (string \<Rightarrow> string \<times> string) \<Rightarrow> store \<Rightarrow> string option
     \<Rightarrow> error + summary list" where
  "list_documents lower splitext st subject = store_list_documents lower splitext st subject"

section \<open>Embeddings: normalisation and the vectors handed to the index\<close>

text \<open>
  A vector is a list of reals and a two-dimensional array a list of rows: the rounding of
  the floats is not modelled. \<open>normalize_embeddings\<close>, line by line: the norm of every
  row (\<open>np.linalg.norm(embs, axis=1, keepdims=True)\<close>), the norms with every \<open>0\<close>
  replaced by \<open>1\<close>, and every row divided by its entry.
\<close>

definition l2_norm :: "real list \<Rightarrow> real" where
  "l2_norm v = sqrt (sum_list (map (\<lambda>x. x ^ 2) v))"

definition safe_norms :: "real list list \<Rightarrow> real list" where
  "safe_norms embs = map (\<lambda>n. if n = 0 then 1 else n) (map l2_norm embs)"

definition normalize_embeddings :: "real list list \<Rightarrow> real list list" where
  "normalize_embeddings embs =
     map (\<lambda>(row, n). map (\<lambda>x. x / n) row) (zip embs (safe_norms embs))"

text \<open>
  The embedder is a parameter: \<open>encode texts\<close> is the array that
  \<open>self.embedder.encode\<close> returns, or the error it raises. \<open>_embed_texts\<close> makes a
  one-dimensional result a matrix of one row.
\<close>

datatype ndarray = Array1 "real list" | Array2 "real list list"

definition embed_texts ::
  "(string list \<Rightarrow> error + ndarray) \<Rightarrow> string list \<Rightarrow> error + real list list" where
  "embed_texts encode texts =
     (case encode texts of
        Inl e \<Rightarrow> Inl e
      | Inr (Array1 v) \<Rightarrow> Inr [v]
      | Inr (Array2 m) \<Rightarrow> Inr m)"

text \<open>
  \<open>FaissVectorStore.add\<close>: the assertion on the dimension, then \<open>add_with_ids\<close>, which
  asserts the dimension of the index and one id per vector and appends the vectors under
  their ids.
\<close>

definition vstore_add :: "vstore \<Rightarrow> real list list \<Rightarrow> int list \<Rightarrow> error + vstore" where
  "vstore_add self vectors ids =
     (if \<not> list_all (\<lambda>v. length v = vs_dim self) vectors then Inl AssertionError
      else (case vs_index self of
        None \<Rightarrow> Inl AttributeError
      | Some ix \<Rightarrow>
          if ix_dim ix \<noteq> vs_dim self \<or> length ids \<noteq> length vectors then Inl AssertionError
          else Inr (self\<lparr>vs_index := Some (ix\<lparr>ix_entries := ix_entries ix @ zip ids vectors\<rparr>)\<rparr>)))"

text \<open>
  \<open>_index_new_docs\<close>. \<open>[self.docstore.get(d)['content'] for d in batch]\<close> raises
  \<open>TypeError\<close> on an id the store does not hold; the batches are the slices
  \<open>doc_ids[i:i+batch_size]\<close> for \<open>i\<close> in \<open>range(0, len(doc_ids), batch_size)\<close>, and
  \<open>range\<close> raises \<open>ValueError\<close> on a step of \<open>0\<close> and is empty on a negative one.
\<close>

fun batch_texts :: "store \<Rightarrow> int list \<Rightarrow> error + string list" where
  "batch_texts st [] = Inr []"
| "batch_texts st (d # batch) =
     (case store_get st d of
        None \<Rightarrow> Inl TypeError
      | Some x \<Rightarrow> (case batch_texts st batch of
                     Inl e \<Rightarrow> Inl e
                   | Inr texts \<Rightarrow> Inr (doc_content x # texts)))"

function batches_of :: "nat \<Rightarrow> 'a list \<Rightarrow> 'a list list" where
  "batches_of n xs = (if n = 0 \<or> xs = [] then [] else take n xs # batches_of n (drop n xs))"
  by pat_completeness auto
termination
  by (relation "measure (\<lambda>(n, xs). length xs)") auto

declare batches_of.simps [simp del]

fun index_batches ::
  "(string list \<Rightarrow> error + ndarray) \<Rightarrow> store \<Rightarrow> int list list \<Rightarrow> vstore \<Rightarrow> error + vstore" where
  "index_batches encode st [] self = Inr self"
| "index_batches encode st (batch # batches) self =
     (case batch_texts st batch of
        Inl e \<Rightarrow> Inl e
      | Inr texts \<Rightarrow> (case embed_texts encode texts of
          Inl e \<Rightarrow> Inl e
        | Inr embeddings \<Rightarrow> (case vstore_add self (normalize_embeddings embeddings) batch of
            Inl e \<Rightarrow> Inl e
          | Inr self' \<Rightarrow> index_batches encode st batches self')))"

definition index_new_docs ::
  "(string list \<Rightarrow> error + ndarray) \<Rightarrow> store \<Rightarrow> int \<Rightarrow> int list \<Rightarrow> vstore \<Rightarrow> error + vstore" where
  "index_new_docs encode st batch_size doc_ids self =
     (if doc_ids = [] then Inr self
      else if batch_size = 0 then Inl ValueError
      else index_batches encode st
             (if batch_size < 0 then [] else batches_of (nat batch_size) doc_ids) self)"

text \<open>
  The first lines of \<open>search_similarity\<close>: the query is embedded and normalised, the
  index is searched with the result, and the loop reads row \<open>0\<close> of what the search
  returns. \<open>index_search ix vectors k\<close> is \<open>self.index.search(vectors, k)\<close>: one row of
  slots \<open>(score, id)\<close> for every vector, or the error raised. \<open>rag_vsearch\<close> is the
  parameter \<open>vsearch\<close> of \<^const>\<open>search_similarity\<close> in \<open>FaissRAG\<close>.
\<close>

definition query_embedding ::
  "(string list \<Rightarrow> error + ndarray) \<Rightarrow> string \<Rightarrow> error + real list list" where
  "query_embedding encode query =
     (case embed_texts encode [query] of
        Inl e \<Rightarrow> Inl e
      | Inr q_emb \<Rightarrow> Inr (normalize_embeddings q_emb))"

definition rag_vsearch ::
  "(string list \<Rightarrow> error + ndarray)
     \<Rightarrow> (faiss_index \<Rightarrow> real list list \<Rightarrow> int \<Rightarrow> error + (real \<times> int) list list)
     \<Rightarrow> vstore \<Rightarrow> string \<Rightarrow> int \<Rightarrow> error + (real \<times> int) list" where
  "rag_vsearch encode index_search self query fetch_k =
     (case query_embedding encode query of
        Inl e \<Rightarrow> Inl e
      | Inr q_emb \<Rightarrow> (case vs_index self of
          None \<Rightarrow> Inl AttributeError
        | Some ix \<Rightarrow> (case index_search ix q_emb fetch_k of
            Inl e \<Rightarrow> Inl e
          | Inr [] \<Rightarrow> Inl IndexError
          | Inr (slots # rows) \<Rightarrow> Inr slots)))"

text \<open>
  \<open>hybrid_search\<close>. \<open>kw_scores\<close> is a \<open>dict\<close> that is only looked up: a map.
  \<open>merged\<close> is a \<open>dict\<close> whose order of insertion decides the result: an association
  list, where \<open>merged[key] = v\<close> replaces the value of a key in place and appends a new key
  (\<^const>\<open>AList.update\<close>).
\<close>

record entry =
  e_id :: int
  e_semantic :: real
  e_keyword :: "real option"
  e_content :: string
  e_metadata :: pyval

record result =
  res_id :: int
  res_score :: real
  res_semantic :: real
  res_keyword :: real
  res_content :: string
  res_metadata :: pyval

fun kw_scores_loop :: "nat \<Rightarrow> doc list \<Rightarrow> (int \<rightharpoonup> real) \<Rightarrow> (int \<rightharpoonup> real)" where
  "kw_scores_loop rank [] kw_scores = kw_scores"
| "kw_scores_loop rank (item # items) kw_scores =
     kw_scores_loop (Suc rank) items (kw_scores(doc_id item \<mapsto> 1 / (1 + real rank)))"

fun merge_semantic :: "hit list \<Rightarrow> (int \<times> entry) list \<Rightarrow> (int \<times> entry) list" where
  "merge_semantic [] merged = merged"
| "merge_semantic (item # items) merged =
     merge_semantic items
       (AList.update (hit_id item)
          \<lparr>e_id = hit_id item, e_semantic = hit_score item, e_keyword = None,
           e_content = hit_content item, e_metadata = hit_metadata item\<rparr> merged)"

fun merge_keyword ::
  "(int \<rightharpoonup> real) \<Rightarrow> doc list \<Rightarrow> (int \<times> entry) list \<Rightarrow> error + (int \<times> entry) list" where
  "merge_keyword kw_scores [] merged = Inr merged"
| "merge_keyword kw_scores (item # items) merged =
     (let did = doc_id item in
      case kw_scores did of
        None \<Rightarrow> Inl KeyError
      | Some s \<Rightarrow>
          (case map_of merged did of
             Some v \<Rightarrow>
               merge_keyword kw_scores items (AList.update did (v\<lparr>e_keyword := Some s\<rparr>) merged)
           | None \<Rightarrow>
               merge_keyword kw_scores items
                 (AList.update did
                    \<lparr>e_id = did, e_semantic = 0, e_keyword = Some s,
                     e_content = doc_content item, e_metadata = doc_metadata item\<rparr> merged)))"

definition final_result :: "real \<Rightarrow> entry \<Rightarrow> result" where
  "final_result alpha v =
     (let s_sem = e_semantic v;
          s_kw = (case e_keyword v of None \<Rightarrow> 0 | Some s \<Rightarrow> s);
          final = alpha * s_sem + (1 - alpha) * s_kw
      in \<lparr>res_id = e_id v, res_score = final, res_semantic = s_sem, res_keyword = s_kw,
          res_content = e_content v, res_metadata = e_metadata v\<rparr>)"

text \<open>
  The body of \<open>hybrid_search\<close> up to the sort. \<open>sorted(..., reverse=True)\<close> is stable:
  results of equal score keep the order of \<open>merged\<close>, as \<^const>\<open>sort_key\<close> on the negated
  score does.
\<close>

definition hybrid_ranked :: "hit list \<Rightarrow> doc list \<Rightarrow> real \<Rightarrow> error + result list" where
  "hybrid_ranked semantic keyword alpha =
     (let kw_scores = kw_scores_loop 0 keyword Map.empty;
          merged = merge_semantic semantic []
      in case merge_keyword kw_scores keyword merged of
           Inl e \<Rightarrow> Inl e
         | Inr merged \<Rightarrow>
             Inr (sort_key (\<lambda>x. - res_score x) (map (\<lambda>kv. final_result alpha (snd kv)) merged)))"

definition hybrid_search ::
  "(string \<Rightarrow> string) \<Rightarrow> (string \<Rightarrow> int \<Rightarrow> error + (real \<times> int) list)
     \<Rightarrow> (row list \<Rightarrow> string \<Rightarrow> error + row list)
     \<Rightarrow> store \<Rightarrow> string \<Rightarrow> int \<Rightarrow> real \<Rightarrow> string option \<Rightarrow> error + result list" where
  "hybrid_search lower vsearch fts st query k alpha subject =
     (case search_similarity lower vsearch st query k subject of
        Inl e \<Rightarrow> Inl e
      | Inr semantic \<Rightarrow>
          (case search_keyword lower fts st query k subject of
             Inl e \<Rightarrow> Inl e
           | Inr keyword \<Rightarrow>
               (case hybrid_ranked semantic keyword alpha of
                  Inl e \<Rightarrow> Inl e
                | Inr results \<Rightarrow> Inr (py_slice results 0 k))))"

section \<open>The properties, as definitions\<close>

subsection \<open>Chunker\<close>

text \<open>The \<open>i\<close>-th window of the loop started at \<open>start\<close>, and the number of windows.\<close>

definition window :: "'a list \<Rightarrow> int \<Rightarrow> int \<Rightarrow> int \<Rightarrow> nat \<Rightarrow> 'a list" where
  "window xs csize step start i =
     py_slice xs (start + int i * step) (start + int i * step + csize)"

definition windows_from :: "int \<Rightarrow> int \<Rightarrow> int \<Rightarrow> nat" where
  "windows_from len step start = nat ((len - start + step - 1) div step)"

text \<open>The chunk count as the specification gives it.\<close>

definition spec_chunk_count :: "int \<Rightarrow> int \<Rightarrow> int \<Rightarrow> int" where
  "spec_chunk_count len csize overlap =
     \<lceil>real_of_int (len - overlap) / real_of_int (csize - overlap)\<rceil>"

text \<open>
  Reconstruction: the first chunk, then every later chunk \<open>c\<close> without its first
  \<open>overlap\<close> characters (\<open>c[overlap:]\<close>).
\<close>

definition py_from :: "'a list \<Rightarrow> int \<Rightarrow> 'a list" where
  "py_from xs i = drop (py_bound (int (length xs)) i) xs"

fun rejoin :: "int \<Rightarrow> 'a list list \<Rightarrow> 'a list" where
  "rejoin overlap [] = []"
| "rejoin overlap (c # cs) = c @ concat (map (\<lambda>d. py_from d overlap) cs)"

text \<open>
  Two consecutive chunks share exactly \<open>ov\<close> characters: the last \<open>ov\<close> characters of
  the first are the first \<open>ov\<close> characters of the second.
\<close>

definition overlap_exact :: "nat \<Rightarrow> 'a list \<Rightarrow> 'a list \<Rightarrow> bool" where
  "overlap_exact ov a b =
     (ov \<le> length a \<and> ov \<le> length b \<and> drop (length a - ov) a = take ov b)"

text \<open>Every pair of consecutive chunks does, but the pair that ends with the last chunk.\<close>

fun overlaps_except_last :: "nat \<Rightarrow> 'a list list \<Rightarrow> bool" where
  "overlaps_except_last ov (a # b # c # cs) =
     (overlap_exact ov a b \<and> overlaps_except_last ov (b # c # cs))"
| "overlaps_except_last ov cs = True"

subsection \<open>Content store\<close>

text \<open>
  A session of the store: calls of \<open>add\<close>, and restarts that close the database and open
  it again from its file. \<open>run\<close> lists the ids the calls of \<open>add\<close> return; a call that
  raises returns none and leaves the tables as they were. \<open>encodable\<close> holds of the calls
  of \<open>add\<close> whose metadata JSON can encode.
\<close>

datatype call = Add string "pydict option" | Restart

fun run :: "(row list \<Rightarrow> int option) \<Rightarrow> store \<Rightarrow> call list \<Rightarrow> int list" where
  "run pick st [] = []"
| "run pick st (Add content metadata # calls) =
     (case store_add pick st content metadata of
        Inl e \<Rightarrow> run pick st calls
      | Inr (i, st') \<Rightarrow> i # run pick st' calls)"
| "run pick st (Restart # calls) = run pick (init_db (Some st)) calls"

fun encodable :: "call \<Rightarrow> bool" where
  "encodable (Add content metadata) =
     json_ok (PDict (case metadata of None \<Rightarrow> [] | Some m \<Rightarrow> m))"
| "encodable Restart = False"

text \<open>The rowids of a table leave room for \<open>n\<close> more below \<open>2^63 - 1\<close>.\<close>

definition room_for :: "nat \<Rightarrow> row list \<Rightarrow> bool" where
  "room_for n rows =
     (int n \<le> max_rowid \<and> list_all (\<lambda>r. row_id r + int n \<le> max_rowid) rows)"

text \<open>
  The metadata of a row is a mapping whose subject, when present, is a string.
\<close>

definition subject_typed :: "row \<Rightarrow> bool" where
  "subject_typed r =
     (case load_meta (row_metadata r) of
        PDict d \<Rightarrow> (case map_of d ''subject'' of
                      None \<Rightarrow> True
                    | Some (PStr t) \<Rightarrow> True
                    | Some v \<Rightarrow> False)
      | v \<Rightarrow> False)"

text \<open>
  Keyword search in the specification's words. A row matches the filter when its subject,
  the empty string when it has none, equals the filter, both in lower case; no filter or
  the empty filter matches every row.
\<close>

definition subject_matches :: "(string \<Rightarrow> string) \<Rightarrow> string option \<Rightarrow> row \<Rightarrow> bool" where
  "subject_matches lower subject r =
     (case subject of
        None \<Rightarrow> True
      | Some s \<Rightarrow>
          if s = [] then True
          else (case load_meta (row_metadata r) of
                  PDict d \<Rightarrow> (case map_of d ''subject'' of
                                None \<Rightarrow> lower [] = lower s
                              | Some (PStr t) \<Rightarrow> lower t = lower s
                              | Some v \<Rightarrow> False)
                | v \<Rightarrow> False))"

text \<open>
  The first \<open>k * 5\<close> rows of the answer are fetched and scanned in their order. With a
  filter, the scan stops with \<open>AttributeError\<close> at a row whose subject is not a string,
  unless \<open>k\<close> matching rows come before it.
\<close>

definition search_keyword_spec ::
  "(string \<Rightarrow> string) \<Rightarrow> row list \<Rightarrow> int \<Rightarrow> string option \<Rightarrow> error + doc list" where
  "search_keyword_spec lower matched k subject =
     (let fetched = take (nat (k * 5)) matched;
          scanned = (if subject_given subject then takeWhile subject_typed fetched else fetched);
          kept = filter (subject_matches lower subject) scanned
      in if length scanned = length fetched \<or> nat k \<le> length kept
         then Inr (map row_doc (take (nat k) kept))
         else Inl AttributeError)"

subsection \<open>Embeddings\<close>

text \<open>
  A vector that normalisation has produced: of unit norm, or the zero vector, which
  normalisation leaves as it is.
\<close>

definition unit_normalized :: "real list \<Rightarrow> bool" where
  "unit_normalized v = (l2_norm v = 1 \<or> list_all (\<lambda>x. x = 0) v)"

text \<open>One row of \<open>normalize_embeddings\<close>: divided by its norm, or by \<open>1\<close> when the norm is \<open>0\<close>.\<close>

definition normalize_row :: "real list \<Rightarrow> real list" where
  "normalize_row v = map (\<lambda>x. x / (if l2_norm v = 0 then 1 else l2_norm v)) v"

text \<open>The vectors a store holds.\<close>

definition stored_vectors :: "vstore \<Rightarrow> real list list" where
  "stored_vectors self =
     (case vs_index self of None \<Rightarrow> [] | Some ix \<Rightarrow> map snd (ix_entries ix))"

subsection \<open>Hybrid search\<close>

text \<open>
  The keyword score of an id: \<open>1 / (1 + rank)\<close> at its 0-based rank in the keyword
  results, \<open>0\<close> when it is not among them.
\<close>

fun rank_of :: "int \<Rightarrow> doc list \<Rightarrow> nat option" where
  "rank_of i [] = None"
| "rank_of i (d # ds) = (if doc_id d = i then Some 0 else map_option Suc (rank_of i ds))"

definition keyword_score :: "doc list \<Rightarrow> int \<Rightarrow> real" where
  "keyword_score keyword i =
     (case rank_of i keyword of None \<Rightarrow> 0 | Some r \<Rightarrow> 1 / (1 + real r))"

text \<open>The semantic score of an id: its score in the similarity results, \<open>0\<close> when absent.\<close>

definition semantic_score :: "hit list \<Rightarrow> int \<Rightarrow> real" where
  "semantic_score semantic i =
     (case find (\<lambda>h. hit_id h = i) semantic of None \<Rightarrow> 0 | Some h \<Rightarrow> hit_score h)"

definition scored :: "real \<Rightarrow> int \<Rightarrow> real \<Rightarrow> real \<Rightarrow> string \<Rightarrow> pyval \<Rightarrow> result" where
  "scored alpha i s_sem s_kw c m =
     \<lparr>res_id = i, res_score = alpha * s_sem + (1 - alpha) * s_kw, res_semantic = s_sem,
      res_keyword = s_kw, res_content = c, res_metadata = m\<rparr>"

text \<open>
  The union of the two result sets by id, a missing component being \<open>0\<close>: the similarity
  results in their order, then the keyword results that are not among them, in theirs.
\<close>

definition candidates :: "hit list \<Rightarrow> doc list \<Rightarrow> real \<Rightarrow> result list" where
  "candidates semantic keyword alpha =
     map (\<lambda>h. scored alpha (hit_id h) (hit_score h) (keyword_score keyword (hit_id h))
                 (hit_content h) (hit_metadata h)) semantic @
     map (\<lambda>d. scored alpha (doc_id d) 0 (keyword_score keyword (doc_id d))
                 (doc_content d) (doc_metadata d))
       (filter (\<lambda>d. doc_id d \<notin> set (map hit_id semantic)) keyword)"

text \<open>
  The top \<open>k\<close> by descending score, ties in the order of \<^const>\<open>candidates\<close>; and the
  same with ties by ascending id, as the specification has it.
\<close>

definition hybrid_spec :: "hit list \<Rightarrow> doc list \<Rightarrow> int \<Rightarrow> real \<Rightarrow> result list" where
  "hybrid_spec semantic keyword k alpha =
     take (nat k) (sort_key (\<lambda>r. - res_score r) (candidates semantic keyword alpha))"

definition hybrid_spec_by_id :: "hit list \<Rightarrow> doc list \<Rightarrow> int \<Rightarrow> real \<Rightarrow> result list" where
  "hybrid_spec_by_id semantic keyword k alpha =
     take (nat k)
       (sort_key (\<lambda>r. (- res_score r, res_id r)) (candidates semantic keyword alpha))"

text \<open>
  The entries of \<open>merged\<close>: the one the first loop stores for a similarity result, the one
  the second loop stores for a keyword result with a new id, and the effect of the
  second loop on an entry whose id is among the keyword ids \<open>S\<close>.
\<close>

definition sem_entry :: "hit \<Rightarrow> int \<times> entry" where
  "sem_entry h =
     (hit_id h, \<lparr>e_id = hit_id h, e_semantic = hit_score h, e_keyword = None,
                 e_content = hit_content h, e_metadata = hit_metadata h\<rparr>)"

definition kw_entry :: "(int \<Rightarrow> real) \<Rightarrow> doc \<Rightarrow> int \<times> entry" where
  "kw_entry g d =
     (doc_id d, \<lparr>e_id = doc_id d, e_semantic = 0, e_keyword = Some (g (doc_id d)),
                 e_content = doc_content d, e_metadata = doc_metadata d\<rparr>)"

definition mark :: "(int \<Rightarrow> real) \<Rightarrow> int set \<Rightarrow> int \<times> entry \<Rightarrow> int \<times> entry" where
  "mark g S p = (if fst p \<in> S then (fst p, (snd p)\<lparr>e_keyword := Some (g (fst p))\<rparr>) else p)"

subsection \<open>Example data\<close>

text \<open>
  \<open>str.lower\<close> on ASCII text. A store of three chunks, a full-text engine that matches
  every row and one that matches the first row only, a vector index that ranks the three
  chunks, and an empty one, whose slots all hold the id \<open>-1\<close>.
\<close>

definition lower_char :: "char \<Rightarrow> char" where
  "lower_char c =
     (let n = (of_char c :: nat) in if 65 \<le> n \<and> n \<le> 90 then char_of (n + 32) else c)"

definition ascii_lower :: "string \<Rightarrow> string" where
  "ascii_lower s = map lower_char s"

definition ex_rows :: "row list" where
  "ex_rows =
     [\<lparr>row_id = 1, row_content = ''Limits and series'',
       row_metadata = Some (JSON (PDict [(''subject'', PStr ''Math'')]))\<rparr>,
      \<lparr>row_id = 2, row_content = ''Laws of motion'',
       row_metadata = Some (JSON (PDict [(''subject'', PStr ''physics'')]))\<rparr>,
      \<lparr>row_id = 3, row_content = ''Integrals'',
       row_metadata = Some (JSON (PDict [(''subject'', PStr ''MATH'')]))\<rparr>]"

definition ex_store :: store where
  "ex_store = \<lparr>documents = ex_rows, docs_fts = ex_rows\<rparr>"

definition fts_all :: "row list \<Rightarrow> string \<Rightarrow> error + row list" where
  "fts_all tbl query = Inr tbl"

definition fts_first :: "row list \<Rightarrow> string \<Rightarrow> error + row list" where
  "fts_first tbl query = Inr (filter (\<lambda>r. row_id r = 1) tbl)"

definition ex_vsearch :: "string \<Rightarrow> int \<Rightarrow> error + (real \<times> int) list" where
  "ex_vsearch query fetch_k = Inr (take (nat fetch_k) [(1, 3), (1 / 2, 2), (1 / 4, 1)])"

definition empty_vsearch :: "string \<Rightarrow> int \<Rightarrow> error + (real \<times> int) list" where
  "empty_vsearch query fetch_k = Inr (replicate (nat fetch_k) (- 1, - 1))"

definition ex_vstore :: vstore where
  "ex_vstore = \<lparr>vs_dim = 384, vs_index_path = ''faiss.index'', vs_index = None\<rparr>"

definition ex_semantic :: "hit list" where
  "ex_semantic =
     [\<lparr>hit_id = 3, hit_score = 1, hit_content = ''Integrals'',
       hit_metadata = PDict [(''subject'', PStr ''MATH'')]\<rparr>,
      \<lparr>hit_id = 2, hit_score = 1 / 2, hit_content = ''Laws of motion'',
       hit_metadata = PDict [(''subject'', PStr ''physics'')]\<rparr>]"

definition ex_keyword :: "doc list" where
  "ex_keyword =
     [\<lparr>doc_id = 1, doc_content = ''Limits and series'',
       doc_metadata = PDict [(''subject'', PStr ''Math'')]\<rparr>]"

text \<open>
  A store whose only chunk has the subject \<open>None\<close>, a store whose only chunk has the
  largest rowid, a probe that answers \<open>1\<close>, and a session with a restart and a call whose
  metadata holds a \<open>set\<close>.
\<close>

definition null_store :: store where
  "null_store =
     \<lparr>documents = [\<lparr>row_id = 1, row_content = ''Untitled'',
                     row_metadata = Some (JSON (PDict [(''subject'', PNone)]))\<rparr>],
      docs_fts = [\<lparr>row_id = 1, row_content = ''Untitled'',
                    row_metadata = Some (JSON (PDict [(''subject'', PNone)]))\<rparr>]\<rparr>"

definition full_store :: store where
  "full_store =
     \<lparr>documents = [\<lparr>row_id = 9223372036854775807, row_content = ''Last'',
                     row_metadata = Some (JSON (PDict []))\<rparr>],
      docs_fts = [\<lparr>row_id = 9223372036854775807, row_content = ''Last'',
                    row_metadata = Some (JSON (PDict []))\<rparr>]\<rparr>"

definition pick_one :: "row list \<Rightarrow> int option" where
  "pick_one rows = Some 1"

definition no_pick :: "row list \<Rightarrow> int option" where
  "no_pick rows = None"

definition ex_calls :: "call list" where
  "ex_calls =
     [Add ''Series'' None,
      Add ''Limits'' (Some [(''subject'', PStr ''Math'')]),
      Restart,
      Add ''Tagged'' (Some [(''tags'', PSet [PStr ''a''])]),
      Add ''Integrals'' None]"


text \<open>
  An embedder that answers every text with the vector \<open>(3, 4)\<close>, and a vector store of
  dimension \<open>2\<close> with an empty index.
\<close>

definition ex_encode :: "string list \<Rightarrow> error + ndarray" where
  "ex_encode texts = Inr (Array2 (map (\<lambda>t. [3, 4]) texts))"

definition ex_index :: vstore where
  "ex_index = \<lparr>vs_dim = 2, vs_index_path = ''faiss.index'', vs_index = Some (new_index 2)\<rparr>"
section \<open>Chunker: proofs\<close>

lemma windows_from_done: "0 < step \<Longrightarrow> len \<le> start \<Longrightarrow> windows_from len step start = 0"
proof -
  assume a: "0 < step" "len \<le> start"
  then have "len - start + step - 1 < step" by simp
  then have "(len - start + step - 1) div step \<le> (step - 1) div step"
    using a(1) by (intro zdiv_mono1) simp_all
  moreover have "(step - 1) div step = 0"
    using a(1) by simp
  ultimately have "(len - start + step - 1) div step \<le> 0" by simp
  then show ?thesis by (simp add: windows_from_def)
qed

lemma windows_from_step:
  assumes "0 < step" "start < len"
  shows "windows_from len step start = Suc (windows_from len step (start + step))"
proof -
  have e: "len - start + step - 1 = (len - (start + step) + step - 1) + 1 * step" by simp
  have "(len - start + step - 1) div step = (len - (start + step) + step - 1) div step + 1"
    unfolding e using assms(1) by (simp only: div_mult_self1 [of step])
  moreover have "0 \<le> (len - (start + step) + step - 1) div step"
    using assms by (simp add: pos_imp_zdiv_nonneg_iff)
  ultimately show ?thesis by (simp add: windows_from_def)
qed

lemma chunk_loop_unroll:
  assumes "0 < csize - overlap"
  shows "chunk_loop text csize overlap start chunks =
     Some (chunks @ map (window text csize (csize - overlap) start)
        [0..<windows_from (int (length text)) (csize - overlap) start])"
proof (induction "nat (int (length text) - start)" arbitrary: start chunks rule: less_induct)
  case less
  show ?case
  proof (cases "start < int (length text)")
    case False
    then show ?thesis
      using assms by (subst chunk_loop.simps) (simp add: windows_from_done)
  next
    case True
    have m: "nat (int (length text) - (start + (csize - overlap))) < nat (int (length text) - start)"
      using True assms by simp
    have w: "window text csize (csize - overlap) (start + (csize - overlap))
         = (\<lambda>i. window text csize (csize - overlap) start (Suc i))"
      by (rule ext) (simp add: window_def algebra_simps)
    have "map (window text csize (csize - overlap) start)
            [0..<Suc (windows_from (int (length text)) (csize - overlap) (start + (csize - overlap)))]
        = window text csize (csize - overlap) start 0 #
          map (window text csize (csize - overlap) (start + (csize - overlap)))
            [0..<windows_from (int (length text)) (csize - overlap) (start + (csize - overlap))]"
      by (simp only: map_upt_Suc w)
    moreover have "window text csize (csize - overlap) start 0 = py_slice text start (start + csize)"
      by (simp add: window_def)
    ultimately show ?thesis
      using True less [OF m] windows_from_step [OF assms True]
      by (subst chunk_loop.simps) simp
  qed
qed

lemma ceil_div_pos:
  fixes a b :: int
  assumes "0 < b"
  shows "\<lceil>real_of_int a / real_of_int b\<rceil> = (a + b - 1) div b"
proof (rule ceiling_unique)
  let ?z = "(a + b - 1) div b"
  have m: "?z * b = a + b - 1 - (a + b - 1) mod b"
    by (simp add: minus_mod_eq_div_mult)
  have r: "0 \<le> (a + b - 1) mod b" "(a + b - 1) mod b < b"
    using assms by simp_all
  have lo: "(?z - 1) * b < a" unfolding left_diff_distrib m using r by simp
  have hi: "a \<le> ?z * b" unfolding m using r by simp
  have "real_of_int ((?z - 1) * b) < real_of_int a"
    using lo by (simp only: of_int_less_iff)
  then show "real_of_int ?z - 1 < real_of_int a / real_of_int b"
    using assms by (simp add: pos_less_divide_eq)
  have "real_of_int a \<le> real_of_int (?z * b)"
    using hi by (simp only: of_int_le_iff)
  then show "real_of_int a / real_of_int b \<le> real_of_int ?z"
    using assms by (simp add: pos_divide_le_eq)
qed

lemma py_slice_window:
  assumes "0 \<le> i" "0 \<le> n"
  shows "py_slice xs i (i + n) = take (nat n) (drop (nat i) xs)"
  using assms by (auto simp: py_slice_def py_bound_def Let_def min_def nat_diff_distrib nat_add_distrib)

lemma chunk_text_windows:
  assumes "ov < sz"
  shows "chunk_text text (int sz) (int ov) =
     Some (map (\<lambda>i. take sz (drop (i * (sz - ov)) text))
        [0..<(length text + (sz - ov) - 1) div (sz - ov)])"
proof -
  define d where "d = sz - ov"
  have d: "int sz - int ov = int d" "0 < d" using assms by (simp_all add: d_def)
  have p: "0 < int sz - int ov" using assms by simp
  have w: "window text (int sz) (int d) 0 i = take sz (drop (i * d) text)" for i
    using py_slice_window [of "int (i * d)" "int sz" "text"]
    by (simp add: window_def nat_mult_distrib)
  have "int (length text) - 0 + int d - 1 = int (length text + d - 1)"
    using d(2) by (simp add: of_nat_diff)
  then have n: "windows_from (int (length text)) (int d) 0 = (length text + d - 1) div d"
    unfolding windows_from_def by (simp only: zdiv_int [symmetric] nat_int)
  show ?thesis
  proof (cases "text = []")
    case True
    then show ?thesis using d(2) by (simp add: chunk_text_def d_def [symmetric])
  next
    case False
    then show ?thesis
      unfolding d_def [symmetric]
      by (simp add: chunk_text_def chunk_loop_unroll [OF p] d(1) w n)
  qed
qed


lemma concat_pieces:
  "concat (map (\<lambda>j. take d (drop (j * d) ys)) [0..<m]) = take (m * d) ys"
proof (induction m)
  case 0
  show ?case by simp
next
  case (Suc m)
  have "take (Suc m * d) ys = take (m * d) ys @ take d (drop (m * d) ys)"
    using take_add [of "m * d" d ys] by (simp add: add.commute)
  with Suc show ?case by simp
qed

lemma ceil_nat_bounds:
  fixes len d :: nat
  assumes "0 < d" "0 < len"
  shows "len \<le> ((len + d - 1) div d) * d" and "0 < (len + d - 1) div d"
proof -
  have m: "((len + d - 1) div d) * d = (len + d - 1) - (len + d - 1) mod d"
    by (simp add: minus_mod_eq_div_mult)
  have r: "(len + d - 1) mod d < d" using assms(1) by simp
  show "len \<le> ((len + d - 1) div d) * d" unfolding m using r assms by linarith
  have "d \<le> len + d - 1" using assms by simp
  then show "0 < (len + d - 1) div d" using assms(1) by (simp add: div_greater_zero_iff)
qed

lemma rejoin_windows:
  assumes "ov < sz"
  shows "rejoin (int ov) (map (\<lambda>i. take sz (drop (i * (sz - ov)) text))
        [0..<(length text + (sz - ov) - 1) div (sz - ov)]) = text"
proof (cases "text = []")
  case True
  then show ?thesis using assms by simp
next
  case False
  define d where "d = sz - ov"
  have d: "0 < d" "sz = d + ov" using assms by (simp_all add: d_def)
  obtain m where m: "(length text + d - 1) div d = Suc m"
    using ceil_nat_bounds(2) [OF d(1), of "length text"] False
    by (cases "(length text + d - 1) div d") simp_all
  have cover: "length text \<le> Suc m * d"
    using ceil_nat_bounds(1) [OF d(1), of "length text"] False m by simp
  have strip: "py_from (take sz (drop (Suc j * d) text)) (int ov)
      = take d (drop (j * d) (drop sz text))" for j
  proof -
    have "py_from (take sz (drop (Suc j * d) text)) (int ov)
        = drop ov (take sz (drop (Suc j * d) text))"
      by (simp add: py_from_def py_bound_def min_def)
    also have "\<dots> = take d (drop (ov + Suc j * d) text)"
      by (simp add: drop_take d(2))
    also have "ov + Suc j * d = sz + j * d" by (simp add: d(2))
    finally show ?thesis by (simp add: add.commute)
  qed
  have "rejoin (int ov) (map (\<lambda>i. take sz (drop (i * d) text)) [0..<Suc m])
      = take sz text @ concat (map (\<lambda>j. take d (drop (j * d) (drop sz text))) [0..<m])"
    by (simp only: map_upt_Suc rejoin.simps map_map o_def strip) simp
  also have "\<dots> = take sz text @ take (m * d) (drop sz text)"
    by (simp only: concat_pieces)
  also have "\<dots> = take (sz + m * d) text"
    by (simp only: take_add)
  also have "\<dots> = text"
    using cover by (simp add: d(2))
  finally show ?thesis by (simp only: d_def [symmetric] m)
qed

lemma window_overlap:
  assumes "ov < sz" "length (take sz (drop (i * (sz - ov)) text)) = sz"
  shows "overlap_exact ov (take sz (drop (i * (sz - ov)) text))
           (take sz (drop (Suc i * (sz - ov)) text))"
proof -
  define d where "d = sz - ov"
  have d: "sz = d + ov" using assms(1) by (simp add: d_def)
  have full: "i * d + sz \<le> length text"
    using assms unfolding d_def [symmetric] by (simp add: min_def split: if_splits)
  have "drop d (take sz (drop (i * d) text)) = take ov (drop (d + i * d) text)"
    by (simp add: drop_take d)
  moreover have "take ov (take sz (drop (Suc i * d) text)) = take ov (drop (d + i * d) text)"
    by (simp add: d min_def)
  moreover have "ov \<le> length (take sz (drop (Suc i * d) text))"
    using full by (simp add: d)
  ultimately show ?thesis
    using assms(2) by (simp add: overlap_exact_def d_def [symmetric])
qed

lemma overlaps_except_last_iff:
  "overlaps_except_last ov cs \<longleftrightarrow>
     (\<forall>i. i + 2 < length cs \<longrightarrow> overlap_exact ov (cs ! i) (cs ! Suc i))"
proof (induction ov cs rule: overlaps_except_last.induct)
  case (1 ov a b c cs)
  show ?case
    unfolding overlaps_except_last.simps 1
    by (auto simp: nth_Cons split: nat.splits)
qed simp_all


lemma window_full:
  fixes d :: nat
  assumes "0 < d" "i + 2 < (length text + d - 1) div d" "sz \<le> 2 * d"
  shows "length (take sz (drop (i * d) text)) = sz"
proof -
  have "(i + 3) * d \<le> ((length text + d - 1) div d) * d"
    using assms(2) by (intro mult_le_mono1) simp
  also have "\<dots> \<le> length text + d - 1" by simp
  finally have "i * d + 2 * d < length text" using assms(1) by (simp add: algebra_simps)
  then show ?thesis using assms(3) by simp
qed

section \<open>Content store: proofs\<close>

lemma fold_max_ge:
  fixes x :: int
  assumes "y \<in> set (x # ys)"
  shows "y \<le> fold max ys x"
proof -
  have "fold max ys x = Max (set (x # ys))"
    using Max.set_eq_fold [of x ys] by simp
  then show ?thesis using assms by (simp only: Max_ge finite_set)
qed

lemma rowid_le_max:
  assumes "r \<in> set (r0 # rs)"
  shows "row_id r \<le> fold max (map row_id rs) (row_id r0)"
proof -
  have "row_id r \<in> row_id ` set (r0 # rs)" using assms by (rule imageI)
  then have "row_id r \<in> set (row_id r0 # map row_id rs)" by simp
  then show ?thesis by (rule fold_max_ge)
qed

lemma lastrowid_unused:
  assumes "lastrowid pick rows = Inr i"
  shows "list_all (\<lambda>r. row_id r \<noteq> i) rows"
proof (cases rows)
  case Nil
  then show ?thesis by simp
next
  case (Cons r0 rs)
  let ?m = "fold max (map row_id rs) (row_id r0)"
  have le: "row_id r \<le> ?m" if "r \<in> set rows" for r
    using that unfolding Cons by (rule rowid_le_max)
  show ?thesis
  proof (cases "?m < max_rowid")
    case True
    then have "i = ?m + 1" using assms Cons by (simp add: lastrowid_def Let_def)
    moreover have "row_id r \<noteq> ?m + 1" if "r \<in> set rows" for r
      using le [OF that] by simp
    ultimately show ?thesis by (simp add: list_all_iff)
  next
    case False
    then have "i \<notin> row_id ` set rows"
      using assms Cons by (simp add: lastrowid_def Let_def split: option.splits if_splits)
    then have "row_id r \<noteq> i" if "r \<in> set rows" for r
      using that by (metis imageI)
    then show ?thesis by (simp add: list_all_iff)
  qed
qed

lemma lastrowid_room:
  assumes "room_for (Suc n) rows"
  shows "\<exists>i. lastrowid pick rows = Inr i \<and> list_all (\<lambda>r. row_id r < i) rows \<and>
           i + int n \<le> max_rowid"
proof (cases rows)
  case Nil
  then show ?thesis using assms by (simp add: lastrowid_def room_for_def)
next
  case (Cons r0 rs)
  let ?m = "fold max (map row_id rs) (row_id r0)"
  have "?m = Max (set (map row_id (r0 # rs)))"
    using Max.set_eq_fold [of "row_id r0" "map row_id rs"] by simp
  then have "?m \<in> set (map row_id (r0 # rs))"
    using Max_in [of "set (map row_id (r0 # rs))"] by simp
  then have "?m \<in> row_id ` set rows" using Cons by simp
  then obtain r where r: "r \<in> set rows" "?m = row_id r" by (rule imageE)
  have "row_id r + int (Suc n) \<le> max_rowid"
    using assms r(1) by (simp add: room_for_def list_all_iff)
  then have b: "?m + int (Suc n) \<le> max_rowid" using r(2) by simp
  then have l: "lastrowid pick rows = Inr (?m + 1)"
    using Cons by (simp add: lastrowid_def Let_def)
  have "row_id x < ?m + 1" if "x \<in> set rows" for x
    using rowid_le_max [of x r0 rs] that Cons by simp
  then show ?thesis using l b by (simp add: list_all_iff)
qed

lemma store_add_Inr:
  assumes "store_add pick st content metadata = Inr (i, st')"
  shows "lastrowid pick (documents st) = Inr i"
    and "documents st' = documents st @
           [\<lparr>row_id = i, row_content = content,
             row_metadata = Some (JSON (PDict (case metadata of None \<Rightarrow> [] | Some m \<Rightarrow> m)))\<rparr>]"
    and "json_ok (PDict (case metadata of None \<Rightarrow> [] | Some m \<Rightarrow> m))"
  using assms
  by (auto simp: store_add_def json_dumps_def Let_def split: if_splits sum.splits)

lemma store_add_room:
  assumes "room_for (Suc n) (documents st)"
    and "json_ok (PDict (case metadata of None \<Rightarrow> [] | Some m \<Rightarrow> m))"
  shows "\<exists>i st'. store_add pick st content metadata = Inr (i, st') \<and>
           list_all (\<lambda>r. row_id r < i) (documents st) \<and> room_for n (documents st')"
proof -
  obtain i where i: "lastrowid pick (documents st) = Inr i"
      "list_all (\<lambda>r. row_id r < i) (documents st)" "i + int n \<le> max_rowid"
    using lastrowid_room [OF assms(1)] by blast
  let ?r = "\<lparr>row_id = i, row_content = content,
      row_metadata = Some (JSON (PDict (case metadata of None \<Rightarrow> [] | Some m \<Rightarrow> m)))\<rparr>"
  let ?st = "\<lparr>documents = documents st @ [?r], docs_fts = docs_fts st @ [?r]\<rparr>"
  have a: "store_add pick st content metadata = Inr (i, ?st)"
    using assms(2) i(1) by (simp add: store_add_def json_dumps_def Let_def)
  have "room_for n (documents ?st)"
    using assms(1) i(3) by (auto simp: room_for_def list_all_iff)
  then show ?thesis using a i(2) by blast
qed

lemma store_add_not_encodable:
  "\<not> json_ok (PDict (case metadata of None \<Rightarrow> [] | Some m \<Rightarrow> m)) \<Longrightarrow>
     store_add pick st content metadata = Inl TypeError"
  by (simp add: store_add_def json_dumps_def)

lemma room_for_less: "room_for (Suc n) rows \<Longrightarrow> room_for n rows"
  by (auto simp: room_for_def list_all_iff)

lemma run_increasing:
  assumes "room_for (length calls) (documents st)"
  shows "sorted_wrt (<) (run pick st calls) \<and>
     list_all (\<lambda>i. list_all (\<lambda>r. row_id r < i) (documents st)) (run pick st calls) \<and>
     length (run pick st calls) = length (filter encodable calls)"
  using assms
proof (induction calls arbitrary: st)
  case Nil
  show ?case by simp
next
  case (Cons c calls)
  have less: "room_for (length calls) (documents st)"
    using Cons.prems by (simp add: room_for_less)
  show ?case
  proof (cases c)
    case Restart
    have i: "init_db (Some st) = st" by (simp add: init_db_def)
    have r: "run pick st (c # calls) = run pick st calls" using Restart i by simp
    have e: "filter encodable (c # calls) = filter encodable calls" using Restart by simp
    show ?thesis unfolding r e by (rule Cons.IH [OF less])
  next
    case (Add content metadata)
    show ?thesis
    proof (cases "json_ok (PDict (case metadata of None \<Rightarrow> [] | Some m \<Rightarrow> m))")
      case False
      then have r: "run pick st (c # calls) = run pick st calls"
        using Add store_add_not_encodable [of metadata pick st content] by simp
      have e: "filter encodable (c # calls) = filter encodable calls"
        using Add False by simp
      show ?thesis unfolding r e by (rule Cons.IH [OF less])
    next
      case True
      have "room_for (Suc (length calls)) (documents st)" using Cons.prems by simp
      from store_add_room [OF this True, of pick content]
      obtain i st' where a: "store_add pick st content metadata = Inr (i, st')"
          "list_all (\<lambda>r. row_id r < i) (documents st)" "room_for (length calls) (documents st')"
        by blast
      note d = store_add_Inr(2) [OF a(1)]
      have ih: "sorted_wrt (<) (run pick st' calls)"
        "list_all (\<lambda>j. list_all (\<lambda>r. row_id r < j) (documents st')) (run pick st' calls)"
        "length (run pick st' calls) = length (filter encodable calls)"
        using Cons.IH [OF a(3)] by simp_all
      have gt: "\<forall>j \<in> set (run pick st' calls). i < j \<and> (\<forall>r \<in> set (documents st). row_id r < j)"
        using ih(2) unfolding d by (auto simp: list_all_iff)
      have r: "run pick st (c # calls) = i # run pick st' calls"
        using Add a(1) by simp
      have e: "filter encodable (c # calls) = c # filter encodable calls"
        using Add True by simp
      have s1: "sorted_wrt (<) (i # run pick st' calls)"
        using ih(1) gt by simp
      have s2: "list_all (\<lambda>j. list_all (\<lambda>r. row_id r < j) (documents st)) (i # run pick st' calls)"
        using a(2) gt by (simp add: list_all_iff)
      show ?thesis unfolding r e using s1 s2 ih(3) by simp
    qed
  qed
qed

lemma find_skip: "list_all (\<lambda>x. \<not> P x) xs \<Longrightarrow> find P (xs @ ys) = find P ys"
  by (induction xs) simp_all

lemma store_get_added:
  assumes "store_add pick st content metadata = Inr (i, st')"
  shows "store_get st' i =
     Some \<lparr>doc_id = i, doc_content = content,
           doc_metadata = PDict (case metadata of None \<Rightarrow> [] | Some m \<Rightarrow> m)\<rparr>"
proof -
  note a = store_add_Inr [OF assms]
  have "list_all (\<lambda>r. \<not> row_id r = i) (documents st)"
    using lastrowid_unused [OF a(1)] by simp
  then have "find (\<lambda>r. row_id r = i) (documents st @ [x]) = find (\<lambda>r. row_id r = i) [x]" for x
    by (rule find_skip)
  then show ?thesis
    unfolding store_get_def a(2) by (simp add: row_doc_def load_meta_def)
qed

lemma subject_skips_falsy:
  "subject_skips lower None meta = Inr False" "subject_skips lower (Some []) meta = Inr False"
  by (simp_all add: subject_skips_def)

lemma keyword_loop_empty:
  "keyword_loop lower k (Some []) rows results = keyword_loop lower k None rows results"
  by (induction rows arbitrary: results) (simp_all add: subject_skips_falsy)

lemma similarity_loop_empty:
  "similarity_loop lower st k (Some []) slots results =
     similarity_loop lower st k None slots results"
proof (induction slots arbitrary: results)
  case Nil
  show ?case by simp
next
  case (Cons p slots)
  obtain s i where p: "p = (s, i)" by (cases p)
  show ?case
    unfolding p by (simp add: subject_skips_falsy Cons Let_def split: option.splits)
qed

lemma documents_loop_empty:
  "documents_loop lower splitext (Some []) rows files_map =
     documents_loop lower splitext None rows files_map"
proof (induction rows arbitrary: files_map)
  case Nil
  show ?case by simp
next
  case (Cons r rows)
  show ?case
    by (simp add: subject_skips_falsy Cons Let_def split: sum.splits)
qed

lemma subject_skips_typed:
  assumes "subject_given subject \<longrightarrow> subject_typed r"
  shows "subject_skips lower subject (load_meta (row_metadata r)) =
     Inr (\<not> subject_matches lower subject r)"
proof (cases subject)
  case None
  then show ?thesis by (simp add: subject_skips_def subject_matches_def)
next
  case (Some s)
  show ?thesis
  proof (cases "s = []")
    case True
    then show ?thesis using Some by (simp add: subject_skips_def subject_matches_def)
  next
    case False
    then have t: "subject_typed r" using assms Some by (simp add: subject_given_def)
    then obtain d where d: "load_meta (row_metadata r) = PDict d"
      by (cases "load_meta (row_metadata r)") (simp_all add: subject_typed_def)
    show ?thesis
    proof (cases "map_of d ''subject''")
      case None
      then show ?thesis
        using Some False d
        by (simp add: subject_skips_def subject_matches_def py_get_def py_lower_def)
    next
      case (Some v)
      then obtain t where "v = PStr t"
        using t d by (cases v) (simp_all add: subject_typed_def)
      then show ?thesis
        using Some \<open>subject = Some s\<close> False d
        by (simp add: subject_skips_def subject_matches_def py_get_def py_lower_def)
    qed
  qed
qed

lemma subject_skips_untyped:
  assumes "subject_given subject" "\<not> subject_typed r"
  shows "subject_skips lower subject (load_meta (row_metadata r)) = Inl AttributeError"
proof -
  obtain s where s: "subject = Some s" "s \<noteq> []"
    using assms(1) by (cases subject) (simp_all add: subject_given_def)
  show ?thesis
  proof (cases "load_meta (row_metadata r)")
    case (PDict d)
    then obtain v where v: "map_of d ''subject'' = Some v" "\<forall>t. v \<noteq> PStr t"
      using assms(2)
      by (cases "map_of d ''subject''")
         (auto simp: subject_typed_def split: pyval.splits)
    then have "py_lower lower v = Inl AttributeError"
      by (cases v) (simp_all add: py_lower_def)
    then show ?thesis
      using s PDict v(1) by (simp add: subject_skips_def py_get_def)
  qed (simp_all add: s subject_skips_def py_get_def)
qed

lemma keyword_loop_scan:
  assumes "list_all (\<lambda>r. subject_given subject \<longrightarrow> subject_typed r) pre"
    and "int (length results) < k"
  shows "keyword_loop lower k subject (pre @ rest) results =
     (if k \<le> int (length results + length (filter (subject_matches lower subject) pre))
      then Inr (take (nat k) (results @ map row_doc (filter (subject_matches lower subject) pre)))
      else keyword_loop lower k subject rest
             (results @ map row_doc (filter (subject_matches lower subject) pre)))"
  using assms
proof (induction pre arbitrary: results)
  case Nil
  then show ?case by simp
next
  case (Cons r pre)
  have s: "subject_skips lower subject (load_meta (row_metadata r)) =
      Inr (\<not> subject_matches lower subject r)"
    using Cons.prems(1) by (intro subject_skips_typed) simp
  have t: "list_all (\<lambda>r. subject_given subject \<longrightarrow> subject_typed r) pre"
    using Cons.prems(1) by simp
  show ?case
  proof (cases "subject_matches lower subject r")
    case False
    then show ?thesis using s Cons.IH [OF t Cons.prems(2)] by simp
  next
    case True
    show ?thesis
    proof (cases "k \<le> int (length (results @ [row_doc r]))")
      case full: True
      then have "nat k = Suc (length results)" using Cons.prems(2) by simp
      then show ?thesis using s True full by simp
    next
      case False
      then have "int (length (results @ [row_doc r])) < k" by simp
      from Cons.IH [OF t this] show ?thesis using s True False by simp
    qed
  qed
qed

section \<open>Vector store: proofs\<close>

lemma load_absent:
  "files (vs_index_path self) = None \<Longrightarrow> load rd files self None = (self, Some FileNotFoundError)"
  by (simp add: load_def)

lemma load_unreadable:
  "files (vs_index_path self) = Some f \<Longrightarrow> rd f = Inl e \<Longrightarrow> load rd files self None = (self, Some e)"
  by (simp add: load_def)

lemma load_other_class:
  "files (vs_index_path self) = Some f \<Longrightarrow> rd f = Inr ix \<Longrightarrow> ix_class ix \<noteq> IndexIDMap \<Longrightarrow>
     load rd files self None = (self\<lparr>vs_index := Some ix\<rparr>, Some RuntimeError)"
  by (simp add: load_def)

lemma load_idmap:
  "files (vs_index_path self) = Some f \<Longrightarrow> rd f = Inr ix \<Longrightarrow> ix_class ix = IndexIDMap \<Longrightarrow>
     load rd files self None = (self\<lparr>vs_index := Some ix\<rparr>, None)"
  by (simp add: load_def)

lemma keyword_loop_fetched:
  assumes "0 < k"
  shows "keyword_loop lower k subject fetched [] =
     (let scanned = (if subject_given subject then takeWhile subject_typed fetched else fetched);
          kept = filter (subject_matches lower subject) scanned
      in if length scanned = length fetched \<or> nat k \<le> length kept
         then Inr (map row_doc (take (nat k) kept))
         else Inl AttributeError)"
proof -
  define pre where "pre = (if subject_given subject then takeWhile subject_typed fetched else fetched)"
  define rest where "rest = (if subject_given subject then dropWhile subject_typed fetched else [])"
  define kept where "kept = filter (subject_matches lower subject) pre"
  have f: "fetched = pre @ rest" by (simp add: pre_def rest_def)
  have t: "list_all (\<lambda>r. subject_given subject \<longrightarrow> subject_typed r) pre"
    by (auto simp: pre_def list_all_iff dest: set_takeWhileD)
  have z: "int (length ([] :: doc list)) < k" using assms by simp
  have scan: "keyword_loop lower k subject fetched [] =
      (if k \<le> int (length kept) then Inr (take (nat k) (map row_doc kept))
       else keyword_loop lower k subject rest (map row_doc kept))"
    unfolding f kept_def using keyword_loop_scan [OF t z, of lower rest] by simp
  have l: "length pre = length fetched \<longleftrightarrow> rest = []" unfolding f by simp
  show ?thesis
  proof (cases "k \<le> int (length kept)")
    case True
    then have "nat k \<le> length kept" by simp
    then show ?thesis
      using scan True by (simp add: Let_def pre_def [symmetric] kept_def [symmetric] take_map)
  next
    case False
    then have short: "\<not> nat k \<le> length kept" "take (nat k) kept = kept" using assms by simp_all
    show ?thesis
    proof (cases rest)
      case Nil
      then show ?thesis
        using scan False short l
        by (simp add: Let_def pre_def [symmetric] kept_def [symmetric])
    next
      case (Cons r rs)
      then have g: "subject_given subject" by (simp add: rest_def split: if_splits)
      then have "dropWhile subject_typed fetched = r # rs" using Cons by (simp add: rest_def)
      then have "\<not> subject_typed r" by (metis hd_dropWhile list.sel(1) list.distinct(1))
      then have "subject_skips lower subject (load_meta (row_metadata r)) = Inl AttributeError"
        by (rule subject_skips_untyped [OF g])
      then have "keyword_loop lower k subject rest (map row_doc kept) = Inl AttributeError"
        unfolding Cons by simp
      then show ?thesis
        using scan False short l Cons
        by (simp add: Let_def pre_def [symmetric] kept_def [symmetric])
    qed
  qed
qed

lemma store_search_keyword_spec:
  assumes "fts (docs_fts st) query = Inr matched" and "0 \<le> k"
  shows "store_search_keyword lower fts st query k subject =
     search_keyword_spec lower matched k subject"
proof (cases "k = 0")
  case True
  then show ?thesis
    using assms(1)
    by (simp add: store_search_keyword_def search_keyword_spec_def sql_limit_def)
next
  case False
  then have p: "0 < k" using assms(2) by simp
  have "sql_limit (k * 5) matched = take (nat (k * 5)) matched"
    using assms(2) by (simp add: sql_limit_def)
  then show ?thesis
    using assms(1) keyword_loop_fetched [OF p, of lower subject "take (nat (k * 5)) matched"]
    by (simp add: store_search_keyword_def search_keyword_spec_def)
qed

lemma search_keyword_spec_typed:
  assumes "subject_given subject \<longrightarrow> list_all subject_typed (take (nat (k * 5)) matched)"
  shows "search_keyword_spec lower matched k subject =
     Inr (map row_doc (take (nat k)
       (filter (subject_matches lower subject) (take (nat (k * 5)) matched))))"
proof (cases "subject_given subject")
  case False
  then show ?thesis by (simp add: search_keyword_spec_def Let_def)
next
  case True
  then have "\<forall>r \<in> set (take (nat (k * 5)) matched). subject_typed r"
    using assms by (simp add: list_all_iff)
  then have "takeWhile subject_typed (take (nat (k * 5)) matched) = take (nat (k * 5)) matched"
    by (simp only: takeWhile_eq_all_conv)
  then show ?thesis
    unfolding search_keyword_spec_def Let_def using True by (simp only: if_True simp_thms)
qed

section \<open>Embedding normalisation: proofs\<close>

lemma sum_squares_nonneg: "0 \<le> sum_list (map (\<lambda>x. x ^ 2) (v :: real list))"
  by (induction v) simp_all

lemma sum_squares_zero_iff:
  "sum_list (map (\<lambda>x. x ^ 2) (v :: real list)) = 0 \<longleftrightarrow> list_all (\<lambda>x. x = 0) v"
proof (induction v)
  case Nil
  show ?case by simp
next
  case (Cons x v)
  have "x ^ 2 + sum_list (map (\<lambda>x. x ^ 2) v) = 0 \<longleftrightarrow> x ^ 2 = 0 \<and> sum_list (map (\<lambda>x. x ^ 2) v) = 0"
    using sum_squares_nonneg [of v] by (intro add_nonneg_eq_0_iff) simp_all
  then show ?case using Cons by simp
qed

lemma l2_norm_zero_iff: "l2_norm v = 0 \<longleftrightarrow> list_all (\<lambda>x. x = 0) v"
  by (simp add: l2_norm_def sum_squares_zero_iff)

lemma sum_squares_divide:
  "sum_list (map (\<lambda>x. x ^ 2) (map (\<lambda>x. x / n) (v :: real list))) =
     sum_list (map (\<lambda>x. x ^ 2) v) / n ^ 2"
  by (induction v) (simp_all add: power_divide add_divide_distrib)

lemma l2_norm_divide: "l2_norm (map (\<lambda>x. x / n) v) = l2_norm v / \<bar>n\<bar>"
proof -
  have "l2_norm (map (\<lambda>x. x / n) v) = sqrt (sum_list (map (\<lambda>x. x ^ 2) v) / n ^ 2)"
    unfolding l2_norm_def by (simp only: sum_squares_divide)
  then show ?thesis by (simp add: l2_norm_def real_sqrt_divide)
qed

lemma normalize_embeddings_rows: "normalize_embeddings embs = map normalize_row embs"
proof -
  have "zip embs (safe_norms embs) =
      map (\<lambda>v. (v, if l2_norm v = 0 then 1 else l2_norm v)) embs"
    by (simp add: safe_norms_def zip_map2 zip_same_conv_map)
  then show ?thesis
    by (simp add: normalize_embeddings_def normalize_row_def o_def)
qed

lemma normalize_row_unit: "\<not> list_all (\<lambda>x. x = 0) v \<Longrightarrow> l2_norm (normalize_row v) = 1"
proof -
  assume "\<not> list_all (\<lambda>x. x = 0) v"
  then have n: "l2_norm v \<noteq> 0" by (simp add: l2_norm_zero_iff)
  moreover have "0 \<le> l2_norm v" by (simp add: l2_norm_def sum_squares_nonneg)
  ultimately show ?thesis by (simp add: normalize_row_def l2_norm_divide)
qed

lemma normalize_row_zero: "list_all (\<lambda>x. x = 0) v \<Longrightarrow> normalize_row v = v"
  by (simp add: normalize_row_def l2_norm_zero_iff [symmetric])

lemma normalize_row_normalized: "unit_normalized (normalize_row v)"
proof (cases "list_all (\<lambda>x. x = 0) v")
  case True
  then show ?thesis by (simp add: normalize_row_zero unit_normalized_def)
next
  case False
  then show ?thesis by (simp add: normalize_row_unit unit_normalized_def)
qed

lemma normalize_embeddings_normalized: "list_all unit_normalized (normalize_embeddings embs)"
  by (simp add: normalize_embeddings_rows list_all_iff normalize_row_normalized)

lemma safe_norms_nonzero: "0 \<notin> set (safe_norms embs)"
  by (auto simp: safe_norms_def)

lemma vstore_add_vectors:
  assumes "vstore_add self vectors ids = Inr self'"
  shows "stored_vectors self' = stored_vectors self @ vectors"
  using assms
  by (auto simp: vstore_add_def stored_vectors_def split: if_splits option.splits)

lemma index_batches_normalized:
  assumes "index_batches encode st batches self = Inr self'"
    and "list_all unit_normalized (stored_vectors self)"
  shows "list_all unit_normalized (stored_vectors self')"
  using assms
proof (induction batches arbitrary: self)
  case Nil
  then show ?case by simp
next
  case (Cons batch batches)
  from Cons.prems(1) obtain texts embeddings mid where
    s: "batch_texts st batch = Inr texts" "embed_texts encode texts = Inr embeddings"
      "vstore_add self (normalize_embeddings embeddings) batch = Inr mid"
      "index_batches encode st batches mid = Inr self'"
    by (auto split: sum.splits)
  have "stored_vectors mid = stored_vectors self @ normalize_embeddings embeddings"
    by (rule vstore_add_vectors [OF s(3)])
  then have "list_all unit_normalized (stored_vectors mid)"
    using Cons.prems(2) normalize_embeddings_normalized [of embeddings] by simp
  then show ?case by (rule Cons.IH [OF s(4)])
qed

lemma index_new_docs_normalized:
  assumes "index_new_docs encode st batch_size doc_ids self = Inr self'"
    and "list_all unit_normalized (stored_vectors self)"
  shows "list_all unit_normalized (stored_vectors self')"
proof (cases "doc_ids = [] \<or> batch_size = 0")
  case True
  then show ?thesis using assms by (auto simp: index_new_docs_def split: if_splits)
next
  case False
  then have "index_batches encode st
      (if batch_size < 0 then [] else batches_of (nat batch_size) doc_ids) self = Inr self'"
    using assms(1) by (simp add: index_new_docs_def)
  then show ?thesis using assms(2) by (rule index_batches_normalized)
qed

lemma query_embedding_normalized:
  "query_embedding encode query = Inr q \<Longrightarrow> list_all unit_normalized q"
  by (auto simp: query_embedding_def normalize_embeddings_normalized split: sum.splits)

lemma rag_vsearch_guarded:
  "rag_vsearch encode index_search self query fetch_k =
   rag_vsearch encode
     (\<lambda>ix vectors k. if list_all unit_normalized vectors then index_search ix vectors k
                      else Inl AssertionError)
     self query fetch_k"
proof (cases "query_embedding encode query")
  case (Inl e)
  then show ?thesis by (simp add: rag_vsearch_def)
next
  case (Inr q)
  then show ?thesis
    using query_embedding_normalized [OF Inr]
    by (simp add: rag_vsearch_def split: option.splits)
qed

lemma vstore_add_length:
  assumes "vstore_add self vectors ids = Inr self'"
  shows "length vectors = length ids"
  using assms
  by (auto simp: vstore_add_def split: if_splits option.splits)

lemma index_batches_stored:
  assumes "index_batches encode st batches self = Inr self'"
  shows "\<exists>added. stored_vectors self' = stored_vectors self @ added \<and>
           list_all unit_normalized added \<and> length added = length (concat batches)"
  using assms
proof (induction batches arbitrary: self)
  case Nil
  then show ?case by simp
next
  case (Cons batch batches)
  from Cons.prems obtain texts embeddings mid where
    s: "batch_texts st batch = Inr texts" "embed_texts encode texts = Inr embeddings"
      "vstore_add self (normalize_embeddings embeddings) batch = Inr mid"
      "index_batches encode st batches mid = Inr self'"
    by (auto split: sum.splits)
  obtain added where a: "stored_vectors self' = stored_vectors mid @ added"
      "list_all unit_normalized added" "length added = length (concat batches)"
    using Cons.IH [OF s(4)] by blast
  have m: "stored_vectors mid = stored_vectors self @ normalize_embeddings embeddings"
    by (rule vstore_add_vectors [OF s(3)])
  have l: "length (normalize_embeddings embeddings) = length batch"
    by (rule vstore_add_length [OF s(3)])
  have "stored_vectors self' = stored_vectors self @ (normalize_embeddings embeddings @ added)"
    using a(1) m by simp
  moreover have "list_all unit_normalized (normalize_embeddings embeddings @ added)"
    using a(2) normalize_embeddings_normalized [of embeddings] by simp
  moreover have "length (normalize_embeddings embeddings @ added) = length (concat (batch # batches))"
    using a(3) l by simp
  ultimately show ?case by blast
qed

lemma concat_batches_of: "0 < n \<Longrightarrow> concat (batches_of n xs) = xs"
proof (induction n xs rule: batches_of.induct)
  case (1 n xs)
  show ?case
  proof (cases "xs = []")
    case True
    then show ?thesis by (simp add: batches_of.simps [of n "[]"])
  next
    case False
    then have "batches_of n xs = take n xs # batches_of n (drop n xs)"
      using "1.prems" by (simp add: batches_of.simps [of n xs])
    moreover have "concat (batches_of n (drop n xs)) = drop n xs"
      using "1.IH" "1.prems" False by simp
    ultimately show ?thesis by simp
  qed
qed

lemma index_new_docs_stored:
  assumes "index_new_docs encode st batch_size doc_ids self = Inr self'"
  shows "\<exists>added. stored_vectors self' = stored_vectors self @ added \<and>
           list_all unit_normalized added \<and>
           (0 < batch_size \<longrightarrow> length added = length doc_ids)"
proof (cases "doc_ids = [] \<or> batch_size = 0")
  case True
  then have "self' = self \<and> doc_ids = []"
    using assms by (auto simp: index_new_docs_def split: if_splits)
  then show ?thesis by simp
next
  case False
  then have b: "index_batches encode st
      (if batch_size < 0 then [] else batches_of (nat batch_size) doc_ids) self = Inr self'"
    using assms(1) by (simp add: index_new_docs_def)
  obtain added where a: "stored_vectors self' = stored_vectors self @ added"
      "list_all unit_normalized added"
      "length added =
         length (concat (if batch_size < 0 then [] else batches_of (nat batch_size) doc_ids))"
    using index_batches_stored [OF b] by blast
  have "0 < batch_size \<longrightarrow> length added = length doc_ids"
    using a(3) by (simp add: concat_batches_of)
  with a(1,2) show ?thesis by blast
qed

lemma normalize_embeddings_nth:
  "i < length embs \<Longrightarrow> normalize_embeddings embs ! i = normalize_row (embs ! i)"
  by (simp add: normalize_embeddings_rows)

lemma l2_norm_3_4: "l2_norm [3, 4] = 5"
proof -
  have "sqrt (5 ^ 2) = 5" by simp
  then show ?thesis by (simp add: l2_norm_def)
qed

section \<open>Hybrid search: proofs\<close>

lemma update_fresh: "k \<notin> fst ` set ps \<Longrightarrow> AList.update k v ps = ps @ [(k, v)]"
  by (induction ps) auto

lemma update_present:
  "distinct (map fst ps) \<Longrightarrow> k \<in> fst ` set ps \<Longrightarrow>
     AList.update k v ps = map (\<lambda>p. if fst p = k then (k, v) else p) ps"
proof (induction ps)
  case Nil
  then show ?case by simp
next
  case (Cons p ps)
  show ?case
  proof (cases "fst p = k")
    case True
    then have "k \<notin> fst ` set ps" using Cons.prems(1) by auto
    then have "map (\<lambda>p. if fst p = k then (k, v) else p) ps = ps"
      by (intro map_idI) auto
    then show ?thesis using True by simp
  next
    case False
    then show ?thesis using Cons by auto
  qed
qed

lemma merge_semantic_distinct:
  assumes "distinct (map hit_id sem)" "hit_id ` set sem \<inter> fst ` set merged = {}"
  shows "merge_semantic sem merged = merged @ map sem_entry sem"
  using assms
proof (induction sem arbitrary: merged)
  case Nil
  show ?case by simp
next
  case (Cons h sem)
  have f: "hit_id h \<notin> fst ` set merged" using Cons.prems(2) by auto
  have u: "AList.update (hit_id h) (snd (sem_entry h)) merged = merged @ [sem_entry h]"
    using update_fresh [OF f] by (simp add: sem_entry_def)
  have "hit_id ` set sem \<inter> fst ` set (merged @ [sem_entry h]) = {}"
    using Cons.prems by (auto simp: sem_entry_def)
  with Cons.IH [of "merged @ [sem_entry h]"] Cons.prems(1)
  have "merge_semantic sem (merged @ [sem_entry h]) = (merged @ [sem_entry h]) @ map sem_entry sem"
    by simp
  then show ?case using u by (simp add: sem_entry_def)
qed

lemma kw_scores_loop_rank:
  assumes "distinct (map doc_id kw)"
  shows "kw_scores_loop rank kw m i =
     (case rank_of i kw of None \<Rightarrow> m i | Some n \<Rightarrow> Some (1 / (1 + real (rank + n))))"
  using assms
proof (induction kw arbitrary: rank m)
  case Nil
  show ?case by simp
next
  case (Cons d kw)
  have ih: "kw_scores_loop (Suc rank) kw m' i =
     (case rank_of i kw of None \<Rightarrow> m' i | Some n \<Rightarrow> Some (1 / (1 + real (Suc rank + n))))" for m'
    using Cons.IH [of "Suc rank" m'] Cons.prems by simp
  show ?case
  proof (cases "doc_id d = i")
    case True
    then have "i \<notin> doc_id ` set kw" using Cons.prems by auto
    then have "rank_of i kw = None" by (induction kw) auto
    then show ?thesis using True ih by simp
  next
    case False
    then show ?thesis using ih by (simp split: option.splits)
  qed
qed

lemma rank_of_member: "i \<in> doc_id ` set kw \<Longrightarrow> rank_of i kw \<noteq> None"
  by (induction kw) auto

lemma kw_scores_defined:
  assumes "distinct (map doc_id kw)" "i \<in> doc_id ` set kw"
  shows "kw_scores_loop 0 kw Map.empty i = Some (keyword_score kw i)"
  using rank_of_member [OF assms(2)]
  by (auto simp: kw_scores_loop_rank [OF assms(1)] keyword_score_def)

lemma fst_mark: "fst (mark g S p) = fst p"
  by (simp add: mark_def)

lemma mark_mark: "mark g S (mark g T p) = mark g (S \<union> T) p"
  by (cases p) (auto simp: mark_def)

lemma mark_outside: "fst p \<notin> S \<Longrightarrow> mark g S p = p"
  by (simp add: mark_def)

lemma merge_keyword_distinct:
  assumes "distinct (map doc_id kw)" "distinct (map fst merged)"
    and "\<forall>d \<in> set kw. kws (doc_id d) = Some (g (doc_id d))"
  shows "merge_keyword kws kw merged =
     Inr (map (mark g (doc_id ` set kw)) merged @
          map (kw_entry g) (filter (\<lambda>d. doc_id d \<notin> fst ` set merged) kw))"
  using assms
proof (induction kw arbitrary: merged)
  case Nil
  have "map (mark g {}) merged = merged"
    by (intro map_idI) (simp add: mark_def)
  then show ?case by simp
next
  case (Cons d kw)
  let ?did = "doc_id d"
  have s: "kws ?did = Some (g ?did)" using Cons.prems(3) by simp
  have dk: "distinct (map doc_id kw)" and nk: "?did \<notin> doc_id ` set kw"
    using Cons.prems(1) by auto
  have rest: "\<forall>d \<in> set kw. kws (doc_id d) = Some (g (doc_id d))"
    using Cons.prems(3) by simp
  show ?case
  proof (cases "map_of merged ?did")
    case None
    then have fresh: "?did \<notin> fst ` set merged" by (simp add: map_of_eq_None_iff)
    let ?m = "merged @ [kw_entry g d]"
    have u: "AList.update ?did (snd (kw_entry g d)) merged = ?m"
      using update_fresh [OF fresh] by (simp add: kw_entry_def)
    have dm: "distinct (map fst ?m)"
      using Cons.prems(2) fresh by (simp add: kw_entry_def)
    have a: "map (mark g (doc_id ` set kw)) ?m
        = map (mark g (insert ?did (doc_id ` set kw))) merged @ [kw_entry g d]"
    proof -
      have "mark g (doc_id ` set kw) (kw_entry g d) = kw_entry g d"
        using nk by (intro mark_outside) (simp add: kw_entry_def)
      moreover have "map (mark g (doc_id ` set kw)) merged
          = map (mark g (insert ?did (doc_id ` set kw))) merged"
        using fresh by (intro map_cong refl) (force simp: mark_def)
      ultimately show ?thesis by simp
    qed
    have b: "filter (\<lambda>x. doc_id x \<notin> fst ` set ?m) kw
        = filter (\<lambda>x. doc_id x \<notin> fst ` set merged) kw"
    proof (intro filter_cong refl)
      fix x assume "x \<in> set kw"
      then have "doc_id x \<noteq> ?did" using nk by (metis imageI)
      then show "(doc_id x \<notin> fst ` set ?m) = (doc_id x \<notin> fst ` set merged)"
        by (simp add: kw_entry_def)
    qed
    have "merge_keyword kws (d # kw) merged = merge_keyword kws kw ?m"
      using s None u by (simp add: kw_entry_def Let_def)
    also have "\<dots> = Inr (map (mark g (doc_id ` set kw)) ?m @
          map (kw_entry g) (filter (\<lambda>x. doc_id x \<notin> fst ` set ?m) kw))"
      by (rule Cons.IH [OF dk dm rest])
    finally show ?thesis using fresh unfolding a b by simp
  next
    case (Some v)
    then have mem: "(?did, v) \<in> set merged" by (rule map_of_SomeD)
    then have present: "?did \<in> fst ` set merged" by force
    let ?m = "map (mark g {?did}) merged"
    have "AList.update ?did (v\<lparr>e_keyword := Some (g ?did)\<rparr>) merged
        = map (\<lambda>p. if fst p = ?did then (?did, v\<lparr>e_keyword := Some (g ?did)\<rparr>) else p) merged"
      by (rule update_present [OF Cons.prems(2) present])
    also have "\<dots> = ?m"
    proof (intro map_cong refl)
      fix p assume p: "p \<in> set merged"
      show "(if fst p = ?did then (?did, v\<lparr>e_keyword := Some (g ?did)\<rparr>) else p) = mark g {?did} p"
      proof (cases "fst p = ?did")
        case True
        then have "map_of merged ?did = Some (snd p)"
          using p Cons.prems(2) by (cases p) simp
        then have "snd p = v" using Some by simp
        then show ?thesis using True by (simp add: mark_def)
      next
        case False
        then show ?thesis by (simp add: mark_def)
      qed
    qed
    finally have u: "AList.update ?did (v\<lparr>e_keyword := Some (g ?did)\<rparr>) merged = ?m" .
    have fm: "map fst ?m = map fst merged" by (simp add: fst_mark o_def)
    have dm: "distinct (map fst ?m)" using Cons.prems(2) by (simp only: fm)
    have im: "fst ` set ?m = fst ` set merged"
      using arg_cong [OF fm, of set] by (simp only: set_map)
    have a: "map (mark g (doc_id ` set kw)) ?m
        = map (mark g (insert ?did (doc_id ` set kw))) merged"
      by (simp add: mark_mark o_def)
    have "merge_keyword kws (d # kw) merged = merge_keyword kws kw ?m"
      using s Some u by (simp add: Let_def)
    also have "\<dots> = Inr (map (mark g (doc_id ` set kw)) ?m @
          map (kw_entry g) (filter (\<lambda>x. doc_id x \<notin> fst ` set ?m) kw))"
      by (rule Cons.IH [OF dk dm rest])
    finally show ?thesis using present unfolding a im by simp
  qed
qed

lemma rank_of_absent: "i \<notin> doc_id ` set kw \<Longrightarrow> rank_of i kw = None"
  by (induction kw) auto

lemma keyword_score_absent: "i \<notin> doc_id ` set kw \<Longrightarrow> keyword_score kw i = 0"
  by (simp add: keyword_score_def rank_of_absent)

lemma final_sem_entry:
  "final_result alpha (snd (mark (keyword_score kw) (doc_id ` set kw) (sem_entry h))) =
     scored alpha (hit_id h) (hit_score h) (keyword_score kw (hit_id h))
       (hit_content h) (hit_metadata h)"
  by (simp add: final_result_def mark_def sem_entry_def scored_def keyword_score_absent Let_def)

lemma final_kw_entry:
  "final_result alpha (snd (kw_entry g d)) =
     scored alpha (doc_id d) 0 (g (doc_id d)) (doc_content d) (doc_metadata d)"
  by (simp add: final_result_def kw_entry_def scored_def Let_def)

lemma hybrid_ranked_candidates:
  assumes "distinct (map hit_id sem)" "distinct (map doc_id kw)"
  shows "hybrid_ranked sem kw alpha =
     Inr (sort_key (\<lambda>x. - res_score x) (candidates sem kw alpha))"
proof -
  let ?g = "keyword_score kw"
  have m1: "merge_semantic sem [] = map sem_entry sem"
    using merge_semantic_distinct [OF assms(1), of "[]"] by simp
  have f: "map fst (map sem_entry sem) = map hit_id sem"
    by (simp add: sem_entry_def o_def)
  have d1: "distinct (map fst (map sem_entry sem))"
    using assms(1) by (simp only: f)
  have i1: "fst ` set (map sem_entry sem) = set (map hit_id sem)"
    using arg_cong [OF f, of set] by (simp only: set_map)
  have k: "\<forall>d \<in> set kw. kw_scores_loop 0 kw Map.empty (doc_id d) = Some (?g (doc_id d))"
    using kw_scores_defined [OF assms(2)] by simp
  have m2: "merge_keyword (kw_scores_loop 0 kw Map.empty) kw (map sem_entry sem) =
     Inr (map (mark ?g (doc_id ` set kw)) (map sem_entry sem) @
          map (kw_entry ?g) (filter (\<lambda>d. doc_id d \<notin> set (map hit_id sem)) kw))"
    using merge_keyword_distinct [OF assms(2) d1 k] by (simp only: i1)
  have c: "map (\<lambda>kv. final_result alpha (snd kv))
       (map (mark ?g (doc_id ` set kw)) (map sem_entry sem) @
        map (kw_entry ?g) (filter (\<lambda>d. doc_id d \<notin> set (map hit_id sem)) kw))
     = candidates sem kw alpha"
    by (simp add: candidates_def o_def final_sem_entry final_kw_entry)
  show ?thesis
    unfolding hybrid_ranked_def Let_def m1 m2 by (simp only: sum.case c)
qed

lemma py_slice_take: "0 \<le> k \<Longrightarrow> py_slice xs 0 k = take (nat k) xs"
  using py_slice_window [of 0 k xs] by simp

lemma hybrid_search_spec:
  assumes "search_similarity lower vsearch st query k subject = Inr sem"
    and "search_keyword lower fts st query k subject = Inr kw"
    and "distinct (map hit_id sem)" "distinct (map doc_id kw)" "0 \<le> k"
  shows "hybrid_search lower vsearch fts st query k alpha subject = Inr (hybrid_spec sem kw k alpha)"
  unfolding hybrid_search_def assms(1,2)
  by (simp add: hybrid_ranked_candidates [OF assms(3,4)] py_slice_take [OF assms(5)] hybrid_spec_def)

lemma candidates_ids:
  "map res_id (candidates sem kw alpha) =
     map hit_id sem @ filter (\<lambda>i. i \<notin> set (map hit_id sem)) (map doc_id kw)"
  by (simp add: candidates_def scored_def o_def filter_map)

lemma candidates_scores:
  "list_all (\<lambda>r. res_score r = alpha * res_semantic r + (1 - alpha) * res_keyword r \<and>
                 res_keyword r = keyword_score kw (res_id r))
     (candidates sem kw alpha)"
  by (auto simp: candidates_def scored_def list_all_iff)

lemma map_insort_key:
  assumes "f x = g (h x)" "\<And>y. y \<in> set ys \<Longrightarrow> f y = g (h y)"
  shows "map h (insort_key f x ys) = insort_key g (h x) (map h ys)"
  using assms by (induction ys) simp_all

lemma map_sort_key:
  assumes "\<And>x. x \<in> set xs \<Longrightarrow> f x = g (h x)"
  shows "map h (sort_key f xs) = sort_key g (map h xs)"
  using assms
proof (induction xs)
  case Nil
  show ?case by simp
next
  case (Cons x xs)
  have "map h (insort_key f x (sort_key f xs)) = insort_key g (h x) (map h (sort_key f xs))"
    using Cons.prems by (intro map_insort_key) simp_all
  then show ?case using Cons by simp
qed

lemma filter_eq_distinct: "distinct xs \<Longrightarrow> k \<in> set xs \<Longrightarrow> filter (\<lambda>x. x = k) xs = [k]"
proof (induction xs)
  case Nil
  then show ?case by simp
next
  case (Cons x xs)
  show ?case
  proof (cases "x = k")
    case True
    then have "k \<notin> set xs" using Cons.prems by simp
    then have "filter (\<lambda>x. x = k) xs = []" by (auto simp: filter_empty_conv)
    then show ?thesis using True by simp
  next
    case False
    then show ?thesis using Cons by simp
  qed
qed

lemma rank_of_Some: "rank_of i kw = Some n \<Longrightarrow> n < length kw \<and> doc_id (kw ! n) = i"
proof (induction kw arbitrary: n)
  case Nil
  then show ?case by simp
next
  case (Cons d kw)
  show ?case
  proof (cases "doc_id d = i")
    case True
    then show ?thesis using Cons.prems by simp
  next
    case False
    then obtain m where m: "rank_of i kw = Some m" "n = Suc m"
      using Cons.prems by (cases "rank_of i kw") simp_all
    then show ?thesis using Cons.IH [OF m(1)] by simp
  qed
qed

lemma rank_of_nth:
  "distinct (map doc_id kw) \<Longrightarrow> n < length kw \<Longrightarrow> rank_of (doc_id (kw ! n)) kw = Some n"
proof (induction kw arbitrary: n)
  case Nil
  then show ?case by simp
next
  case (Cons d kw)
  show ?case
  proof (cases n)
    case 0
    then show ?thesis by simp
  next
    case (Suc m)
    then have m: "m < length kw" using Cons.prems by simp
    then have "doc_id (kw ! m) \<in> doc_id ` set kw" by simp
    then have "doc_id d \<noteq> doc_id (kw ! m)" using Cons.prems(1) by auto
    then show ?thesis using Suc Cons.IH [OF _ m] Cons.prems(1) by simp
  qed
qed

lemma keyword_score_pos: "i \<in> doc_id ` set kw \<Longrightarrow> 0 < keyword_score kw i"
  using rank_of_member [of i kw] by (auto simp: keyword_score_def)

lemma keyword_score_inj:
  assumes "i \<in> doc_id ` set kw" "keyword_score kw j = keyword_score kw i"
  shows "j = i"
proof -
  obtain n where n: "rank_of i kw = Some n"
    using rank_of_member [OF assms(1)] by auto
  have "0 < keyword_score kw j" using keyword_score_pos [OF assms(1)] assms(2) by simp
  then have "j \<in> doc_id ` set kw" using keyword_score_absent [of j kw] by force
  then obtain m where m: "rank_of j kw = Some m"
    using rank_of_member by auto
  have "1 / (1 + real m) = 1 / (1 + real n)"
    using assms(2) n m by (simp add: keyword_score_def)
  then have "m = n" by simp
  then show ?thesis using rank_of_Some [OF n] rank_of_Some [OF m] by simp
qed

lemma keyword_score_sorted:
  assumes "distinct (map doc_id kw)"
  shows "sorted (map (\<lambda>i. - keyword_score kw i) (map doc_id kw))"
  unfolding sorted_iff_nth_mono
proof (intro allI impI)
  fix i j assume ij: "i \<le> j" "j < length (map (\<lambda>i. - keyword_score kw i) (map doc_id kw))"
  then have l: "i < length kw" "j < length kw" by simp_all
  have "1 / (1 + real j) \<le> 1 / (1 + real i)"
    using ij(1) by (intro divide_left_mono) simp_all
  then show "map (\<lambda>i. - keyword_score kw i) (map doc_id kw) ! i
      \<le> map (\<lambda>i. - keyword_score kw i) (map doc_id kw) ! j"
    using l by (simp add: keyword_score_def rank_of_nth [OF assms])
qed

lemma mset_swap_union:
  assumes "distinct S" "distinct K"
  shows "mset (K @ filter (\<lambda>i. i \<notin> set K) S) = mset (S @ filter (\<lambda>i. i \<notin> set S) K)"
proof -
  have "distinct (K @ filter (\<lambda>i. i \<notin> set K) S)" using assms by auto
  moreover have "distinct (S @ filter (\<lambda>i. i \<notin> set S) K)" using assms by auto
  moreover have "set (K @ filter (\<lambda>i. i \<notin> set K) S) = set (S @ filter (\<lambda>i. i \<notin> set S) K)"
    by auto
  ultimately show ?thesis by (simp only: set_eq_iff_mset_eq_distinct)
qed

lemma sort_keyword_first:
  assumes "distinct S" "distinct (map doc_id kw)"
  shows "sort_key (\<lambda>i. - keyword_score kw i) (S @ filter (\<lambda>i. i \<notin> set S) (map doc_id kw))
     = map doc_id kw @ filter (\<lambda>i. i \<notin> set (map doc_id kw)) S"
proof (rule properties_for_sort_key)
  let ?K = "map doc_id kw"
  let ?f = "\<lambda>i. - keyword_score kw i"
  let ?xs = "S @ filter (\<lambda>i. i \<notin> set S) ?K"
  let ?ys = "?K @ filter (\<lambda>i. i \<notin> set ?K) S"
  show "mset ?ys = mset ?xs" by (rule mset_swap_union [OF assms])
  have dx: "distinct ?xs" using assms by auto
  have dy: "distinct ?ys" using assms by auto
  have sx: "set ?xs = set ?ys" by auto
  show "sorted (map ?f ?ys)"
  proof -
    have c: "map ?f (filter (\<lambda>i. i \<notin> set ?K) S)
        = map (\<lambda>i. 0) (filter (\<lambda>i. i \<notin> set ?K) S)"
      by (intro map_cong refl) (simp add: keyword_score_absent)
    have z: "sorted (map ?f (filter (\<lambda>i. i \<notin> set ?K) S))"
      unfolding c by (simp add: sorted_iff_nth_mono)
    have o: "?f i \<le> ?f j" if "i \<in> doc_id ` set kw" "j \<notin> doc_id ` set kw" for i j
      using keyword_score_pos [OF that(1)] keyword_score_absent [OF that(2)] by simp
    have "\<forall>x \<in> set (map ?f ?K). \<forall>y \<in> set (map ?f (filter (\<lambda>i. i \<notin> set ?K) S)). x \<le> y"
      using o by (simp only: set_map set_filter ball_simps) blast
    then show ?thesis
      using keyword_score_sorted [OF assms(2)] z
      by (simp only: map_append sorted_append)
  qed
  fix k assume k: "k \<in> set ?ys"
  show "filter (\<lambda>x. ?f k = ?f x) ?ys = filter (\<lambda>x. ?f k = ?f x) ?xs"
  proof (cases "k \<in> set ?K")
    case True
    then have ki: "k \<in> doc_id ` set kw" by simp
    have e: "(?f k = ?f x) = (x = k)" for x
      using keyword_score_inj [OF ki, of x] by auto
    have "k \<in> set ?xs" using k sx by simp
    then show ?thesis
      unfolding e using filter_eq_distinct [OF dx] filter_eq_distinct [OF dy k] by simp
  next
    case False
    then have z: "keyword_score kw k = 0" by (intro keyword_score_absent) simp
    have e: "(?f k = ?f x) = (x \<notin> set ?K)" for x
    proof (cases "x \<in> set ?K")
      case True
      then have "0 < keyword_score kw x" by (intro keyword_score_pos) simp
      then show ?thesis using z True by simp
    next
      case False
      then have "keyword_score kw x = 0" by (intro keyword_score_absent) simp
      then show ?thesis using z False by simp
    qed
    have a: "filter (\<lambda>x. x \<notin> set ?K) ?K = []" by (simp add: filter_empty_conv)
    have b: "filter (\<lambda>x. x \<notin> set ?K) (filter (\<lambda>i. i \<notin> set S) ?K) = []"
      by (simp add: filter_empty_conv)
    show ?thesis unfolding e by (simp only: filter_append a b filter_filter) simp
  qed
qed

lemma hybrid_spec_keyword_ids:
  assumes "distinct (map hit_id sem)" "distinct (map doc_id kw)"
  shows "map res_id (hybrid_spec sem kw k 0) =
     take (nat k) (map doc_id kw @ filter (\<lambda>i. i \<notin> set (map doc_id kw)) (map hit_id sem))"
proof -
  have s: "- res_score r = - keyword_score kw (res_id r)"
    if "r \<in> set (candidates sem kw 0)" for r
    using candidates_scores [of 0 kw sem] that by (simp add: list_all_iff)
  have "map res_id (sort_key (\<lambda>r. - res_score r) (candidates sem kw 0))
      = sort_key (\<lambda>i. - keyword_score kw i) (map res_id (candidates sem kw 0))"
    using s by (rule map_sort_key)
  also have "\<dots> = map doc_id kw @ filter (\<lambda>i. i \<notin> set (map doc_id kw)) (map hit_id sem)"
    unfolding candidates_ids by (rule sort_keyword_first [OF assms])
  finally show ?thesis unfolding hybrid_spec_def by (simp only: take_map [symmetric])
qed

lemma hybrid_spec_similarity_ids:
  assumes "sorted_wrt (\<lambda>a b. b \<le> a) (map hit_score sem)" "list_all (\<lambda>h. 0 \<le> hit_score h) sem"
  shows "map res_id (hybrid_spec sem kw k 1) =
     take (nat k) (map hit_id sem @ filter (\<lambda>i. i \<notin> set (map hit_id sem)) (map doc_id kw))"
proof -
  let ?rest = "filter (\<lambda>d. doc_id d \<notin> set (map hit_id sem)) kw"
  have m: "map (\<lambda>r. - res_score r) (candidates sem kw 1)
      = map (\<lambda>h. - hit_score h) sem @ map (\<lambda>d. 0) ?rest"
    by (simp add: candidates_def scored_def o_def)
  have a: "sorted (map (\<lambda>h. - hit_score h) sem)"
    using assms(1) by (simp add: sorted_wrt_map)
  have b: "sorted (map (\<lambda>d. 0 :: real) ?rest)"
    by (simp add: sorted_iff_nth_mono)
  have c: "\<forall>x \<in> set (map (\<lambda>h. - hit_score h) sem). \<forall>y \<in> set (map (\<lambda>d. 0 :: real) ?rest). x \<le> y"
    using assms(2) by (auto simp: list_all_iff)
  have "sorted (map (\<lambda>r. - res_score r) (candidates sem kw 1))"
    unfolding m using a b c by (simp only: sorted_append)
  then have "sort_key (\<lambda>r. - res_score r) (candidates sem kw 1) = candidates sem kw 1"
    by (rule sort_key_id_if_sorted)
  then show ?thesis
    unfolding hybrid_spec_def by (simp only: take_map [symmetric] candidates_ids)
qed

lemma hybrid_spec_sorted:
  "sorted_wrt (\<lambda>a b. res_score b \<le> res_score a) (hybrid_spec sem kw k alpha)"
proof -
  have "sorted (map (\<lambda>r. - res_score r) (sort_key (\<lambda>r. - res_score r) (candidates sem kw alpha)))"
    by (rule sorted_sort_key)
  then have "sorted_wrt (\<lambda>a b. res_score b \<le> res_score a)
      (sort_key (\<lambda>r. - res_score r) (candidates sem kw alpha))"
    by (simp add: sorted_wrt_map)
  then show ?thesis unfolding hybrid_spec_def by (rule sorted_wrt_take)
qed

lemma hybrid_spec_members:
  "set (hybrid_spec sem kw k alpha) \<subseteq> set (candidates sem kw alpha)"
  unfolding hybrid_spec_def using set_take_subset [of "nat k"] by fastforce

lemma find_distinct_hit:
  "distinct (map hit_id sem) \<Longrightarrow> h \<in> set sem \<Longrightarrow> find (\<lambda>x. hit_id x = hit_id h) sem = Some h"
proof (induction sem)
  case Nil
  then show ?case by simp
next
  case (Cons x sem)
  show ?case
  proof (cases "x = h")
    case True
    then show ?thesis by simp
  next
    case False
    then have m: "h \<in> set sem" using Cons.prems(2) by simp
    then have "hit_id h \<in> hit_id ` set sem" by (rule imageI)
    then have "hit_id x \<noteq> hit_id h" using Cons.prems(1) by auto
    then show ?thesis using Cons.IH [OF _ m] Cons.prems(1) by simp
  qed
qed

lemma semantic_score_absent: "i \<notin> hit_id ` set sem \<Longrightarrow> semantic_score sem i = 0"
proof -
  assume "i \<notin> hit_id ` set sem"
  then have "find (\<lambda>h. hit_id h = i) sem = None"
    by (auto simp: find_None_iff)
  then show ?thesis by (simp add: semantic_score_def)
qed

lemma candidates_semantic:
  assumes "distinct (map hit_id sem)"
  shows "list_all (\<lambda>r. res_semantic r = semantic_score sem (res_id r)) (candidates sem kw alpha)"
proof -
  have "semantic_score sem (hit_id h) = hit_score h" if "h \<in> set sem" for h
    using find_distinct_hit [OF assms that] by (simp add: semantic_score_def)
  moreover have "semantic_score sem (doc_id d) = 0" if "doc_id d \<notin> set (map hit_id sem)" for d
    using that by (intro semantic_score_absent) simp
  ultimately show ?thesis
    by (auto simp: candidates_def scored_def list_all_iff)
qed

lemma hybrid_spec_ties:
  "filter (\<lambda>r. res_score r = s) (sort_key (\<lambda>r. - res_score r) (candidates sem kw alpha))
     = filter (\<lambda>r. res_score r = s) (candidates sem kw alpha)"
  using sort_key_stable [of "\<lambda>r. - res_score r" "- s" "candidates sem kw alpha"] by simp

section \<open>The claims\<close>

subsection \<open>Chunker\<close>

text \<open>
  Claim C2, as amended. For \<open>overlap < size\<close> the chunker returns, and the number of
  chunks is \<open>\<lceil>len(T) / (size - overlap)\<rceil>\<close>: the loop starts a chunk at every multiple
  of \<open>size - overlap\<close> below \<open>len(T)\<close>. The empty text yields the empty sequence.
\<close>

theorem chunk_text_count:
  "overlap < csize \<Longrightarrow>
     map_option (\<lambda>cs. int (length cs)) (chunk_text text csize overlap) =
       Some \<lceil>real (length text) / real_of_int (csize - overlap)\<rceil> \<and>
     chunk_text [] csize overlap = Some []"
proof -
  assume a: "overlap < csize"
  then have p: "0 < csize - overlap" by simp
  have c: "\<lceil>real (length text) / real_of_int (csize - overlap)\<rceil>
      = (int (length text) + (csize - overlap) - 1) div (csize - overlap)"
    using ceil_div_pos [OF p, of "int (length text)"] by simp
  have n: "0 \<le> (int (length text) + (csize - overlap) - 1) div (csize - overlap)"
    using p by (simp add: pos_imp_zdiv_nonneg_iff)
  have e: "chunk_text [] csize overlap = Some []" by (simp add: chunk_text_def)
  show ?thesis
  proof (cases "text = []")
    case True
    then show ?thesis using p e by simp
  next
    case False
    then show ?thesis
      using n c e by (simp add: chunk_text_def chunk_loop_unroll [OF p] windows_from_def)
  qed
qed

text \<open>
  A text of 10 characters with \<open>size = 5\<close> and \<open>overlap = 2\<close>: chunks start at 0, 3, 6
  and 9.
\<close>

theorem chunk_text_count_witness:
  "map_option (\<lambda>cs. int (length cs)) (chunk_text ''abcdefghij'' 5 2) = Some 4"
  using chunk_text_count [of 2 5 "''abcdefghij''"] by simp

text \<open>
  Claim C2 as stated gives \<open>\<lceil>(10 - 2) / (5 - 2)\<rceil> = 3\<close> chunks there; the code returns 4,
  the last one inside the overlap of the third.
\<close>

theorem chunk_text_count_cex:
  "chunk_text ''abcdefghij'' 5 2 = Some [''abcde'', ''defgh'', ''ghij'', ''j''] \<and>
   spec_chunk_count (int (length ''abcdefghij'')) 5 2 = 3"
  by (simp add: chunk_text_def chunk_loop.simps py_slice_def py_bound_def spec_chunk_count_def)

text \<open>
  Claim C3, as amended. For \<open>0 \<le> overlap < size\<close> the chunker returns chunks from which
  the text is reconstructed exactly; a chunk of full length \<open>size\<close> shares exactly
  \<open>overlap\<close> characters with its successor; and when \<open>2 * overlap \<le> size\<close> every pair
  of consecutive chunks does, except possibly the pair that ends with the last chunk.
\<close>

theorem chunk_roundtrip_overlap:
  assumes "0 \<le> overlap" "overlap < csize"
  shows "\<exists>cs. chunk_text text csize overlap = Some cs \<and> rejoin overlap cs = text \<and>
     (\<forall>i. Suc i < length cs \<longrightarrow> int (length (cs ! i)) = csize \<longrightarrow>
          overlap_exact (nat overlap) (cs ! i) (cs ! Suc i)) \<and>
     (2 * overlap \<le> csize \<longrightarrow> overlaps_except_last (nat overlap) cs)"
proof -
  obtain sz ov where e: "csize = int sz" "overlap = int ov"
    using assms by (metis nat_0_le less_imp_le order_trans)
  have lt: "ov < sz" using assms(2) e by simp
  define d where "d = sz - ov"
  define n where "n = (length text + d - 1) div d"
  define cs where "cs = map (\<lambda>i. take sz (drop (i * d) text)) [0..<n]"
  have dpos: "0 < d" using lt by (simp add: d_def)
  have c: "chunk_text text csize overlap = Some cs"
    unfolding e cs_def n_def d_def by (rule chunk_text_windows [OF lt])
  have r: "rejoin overlap cs = text"
    unfolding e cs_def n_def d_def by (rule rejoin_windows [OF lt])
  have o: "overlap_exact ov (cs ! i) (cs ! Suc i)"
    if "Suc i < length cs" "length (cs ! i) = sz" for i
    using that window_overlap [OF lt, of i "text"]
    by (simp add: cs_def d_def)
  have l: "overlaps_except_last ov cs" if "2 * ov \<le> sz"
    unfolding overlaps_except_last_iff
  proof (intro allI impI)
    fix i assume i: "i + 2 < length cs"
    then have "i + 2 < (length text + d - 1) div d" by (simp add: cs_def n_def)
    moreover have "sz \<le> 2 * d" using that lt by (simp add: d_def)
    ultimately have "length (take sz (drop (i * d) text)) = sz"
      using dpos by (intro window_full)
    then have "length (cs ! i) = sz" using i by (simp add: cs_def)
    then show "overlap_exact ov (cs ! i) (cs ! Suc i)" using i by (intro o) simp_all
  qed
  show ?thesis
    using c r o l by (intro exI [of _ cs]) (simp add: e)
qed

text \<open>The same text and parameters: four chunks, every pair overlapping by 2 but the last.\<close>

theorem chunk_roundtrip_overlap_witness:
  "rejoin 2 (the (chunk_text ''abcdefghij'' 5 2)) = ''abcdefghij'' \<and>
   overlap_exact 2 (the (chunk_text ''abcdefghij'' 5 2) ! 0) (the (chunk_text ''abcdefghij'' 5 2) ! 1) \<and>
   overlaps_except_last 2 (the (chunk_text ''abcdefghij'' 5 2))"
proof -
  have cs: "chunk_text ''abcdefghij'' 5 2 = Some [''abcde'', ''defgh'', ''ghij'', ''j'']"
    by (simp add: chunk_text_def chunk_loop.simps py_slice_def py_bound_def)
  have h: "(0::int) \<le> 2" "(2::int) < 5" by simp_all
  from chunk_roundtrip_overlap [OF h, of "''abcdefghij''"]
  have r: "rejoin 2 [''abcde'', ''defgh'', ''ghij'', ''j''] = ''abcdefghij''"
    and o: "\<forall>i. Suc i < length [''abcde'', ''defgh'', ''ghij'', ''j''] \<longrightarrow>
        int (length ([''abcde'', ''defgh'', ''ghij'', ''j''] ! i)) = 5 \<longrightarrow>
        overlap_exact (nat 2) ([''abcde'', ''defgh'', ''ghij'', ''j''] ! i)
          ([''abcde'', ''defgh'', ''ghij'', ''j''] ! Suc i)"
    and l: "overlaps_except_last (nat 2) [''abcde'', ''defgh'', ''ghij'', ''j'']"
    unfolding cs by (simp_all del: rejoin.simps overlaps_except_last.simps)
  from o [rule_format, of 0] have "overlap_exact 2 ''abcde'' ''defgh''" by simp
  with r l show ?thesis unfolding cs by (simp del: rejoin.simps overlaps_except_last.simps)
qed

text \<open>
  Claim C3 as stated fails for \<open>size = 5\<close>, \<open>overlap = 4\<close>: the chunks \<open>ghij\<close> and
  \<open>hij\<close> share 3 characters, and \<open>hij\<close> is not the last chunk. It also fails for a
  negative overlap, which leaves gaps between the chunks.
\<close>

theorem chunk_overlap_cex:
  "chunk_text ''abcdefghij'' 5 4 =
     Some [''abcde'', ''bcdef'', ''cdefg'', ''defgh'', ''efghi'', ''fghij'',
           ''ghij'', ''hij'', ''ij'', ''j''] \<and>
   \<not> overlaps_except_last 4
     [''abcde'', ''bcdef'', ''cdefg'', ''defgh'', ''efghi'', ''fghij'',
      ''ghij'', ''hij'', ''ij'', ''j''] \<and>
   chunk_text ''abcdef'' 2 (- 1) = Some [''ab'', ''de''] \<and>
   rejoin (- 1) [''ab'', ''de''] = ''abe''"
  by (simp add: chunk_text_def chunk_loop.simps py_slice_def py_bound_def overlap_exact_def
      py_from_def)

subsection \<open>Content store\<close>










text \<open>
  Claim C10. The empty string as subject filter is no filter: similarity search, keyword
  search and the document list return what they return without a filter.
\<close>

theorem empty_subject_is_no_filter:
  "search_similarity lower vsearch st query k (Some []) =
     search_similarity lower vsearch st query k None \<and>
   search_keyword lower fts st query k (Some []) = search_keyword lower fts st query k None \<and>
   list_documents lower splitext st (Some []) = list_documents lower splitext st None"
  by (simp add: search_similarity_def search_keyword_def store_search_keyword_def
      list_documents_def store_list_documents_def subject_given_def
      similarity_loop_empty keyword_loop_empty documents_loop_empty
      cong: sum.case_cong)

subsection \<open>Vector index\<close>

text \<open>
  Claim C6, as amended. Constructing the vector store never fails: without a file it
  starts from an empty index and prints nothing; with a file that cannot be read, or that
  holds an index of another class, it starts from an empty index and prints the failure.
  \<open>load\<close> itself raises in the three cases and creates no index.
\<close>

theorem init_index_fallback:
  "(files (vs_index_path self) = None \<longrightarrow>
      init_index rd files self = (self\<lparr>vs_index := Some (new_index (vs_dim self))\<rparr>, []) \<and>
      snd (load rd files self None) = Some FileNotFoundError) \<and>
   (files (vs_index_path self) = Some f \<and> rd f = Inl e \<longrightarrow>
      init_index rd files self =
        (self\<lparr>vs_index := Some (new_index (vs_dim self))\<rparr>, [FailedToLoad e]) \<and>
      snd (load rd files self None) = Some e) \<and>
   (files (vs_index_path self) = Some f \<and> rd f = Inr ix \<and> ix_class ix \<noteq> IndexIDMap \<longrightarrow>
      init_index rd files self =
        (self\<lparr>vs_index := Some (new_index (vs_dim self))\<rparr>, [FailedToLoad RuntimeError]) \<and>
      snd (load rd files self None) = Some RuntimeError) \<and>
   (files (vs_index_path self) = Some f \<and> rd f = Inr ix \<and> ix_class ix = IndexIDMap \<longrightarrow>
      init_index rd files self = (self\<lparr>vs_index := Some ix\<rparr>, []))"
  by (auto simp: init_index_def load_absent load_unreadable load_other_class load_idmap)

text \<open>A missing file, and a file that \<open>faiss.read_index\<close> rejects.\<close>

theorem init_index_fallback_witness:
  "vstore_init (\<lambda>f. f) (\<lambda>p. None) 384 ''faiss.index'' =
     (\<lparr>vs_dim = 384, vs_index_path = ''faiss.index'', vs_index = Some (new_index 384)\<rparr>, []) \<and>
   vstore_init (\<lambda>f. f) (\<lambda>p. Some (Inl RuntimeError)) 384 ''faiss.index'' =
     (\<lparr>vs_dim = 384, vs_index_path = ''faiss.index'', vs_index = Some (new_index 384)\<rparr>,
      [FailedToLoad RuntimeError])"
  using init_index_fallback [of "\<lambda>p. None" ex_vstore "\<lambda>f. f"]
    init_index_fallback [of "\<lambda>p. Some (Inl RuntimeError)" ex_vstore "\<lambda>f. f" "Inl RuntimeError" RuntimeError]
  by (simp add: vstore_init_def ex_vstore_def)

text \<open>
  Claim C6 as stated fails on the load path \<open>FaissRAG.load\<close>: without a file it raises
  \<open>FileNotFoundError\<close> and leaves the store without an index; and the construction
  prints nothing about a missing file.
\<close>

theorem load_fallback_cex:
  "rag_load (\<lambda>f. f) (\<lambda>p. None) ex_vstore = (ex_vstore, Some FileNotFoundError) \<and>
   vs_index ex_vstore = None \<and>
   snd (vstore_init (\<lambda>f. f) (\<lambda>p. None) 384 ''faiss.index'') = []"
  by (simp add: rag_load_def load_def vstore_init_def init_index_def ex_vstore_def)

subsection \<open>Hybrid search\<close>

text \<open>
  Claim C1, as amended. When the two searches return results with distinct ids and
  \<open>k \<ge> 0\<close>, \<open>hybridSearch\<close> returns the first \<open>k\<close> of the union of the two result sets
  by id, sorted by descending final score, where the keyword score of a result is
  \<open>1 / (1 + rank)\<close>, a missing component is \<open>0\<close> and the final score is
  \<open>alpha * semantic + (1 - alpha) * keyword\<close>. Results of equal score keep the order of
  the union: the similarity results first, then the keyword results that are new.
\<close>

theorem hybrid_search_refines:
  assumes "search_similarity lower vsearch st query k subject = Inr sem"
    and "search_keyword lower fts st query k subject = Inr kw"
    and "distinct (map hit_id sem)" and "distinct (map doc_id kw)" and "0 \<le> k"
  shows "hybrid_search lower vsearch fts st query k alpha subject = Inr (hybrid_spec sem kw k alpha) \<and>
     sorted_wrt (\<lambda>a b. res_score b \<le> res_score a) (hybrid_spec sem kw k alpha) \<and>
     length (hybrid_spec sem kw k alpha) \<le> nat k \<and>
     set (hybrid_spec sem kw k alpha) \<subseteq> set (candidates sem kw alpha) \<and>
     map res_id (candidates sem kw alpha) =
       map hit_id sem @ filter (\<lambda>i. i \<notin> set (map hit_id sem)) (map doc_id kw) \<and>
     list_all (\<lambda>r. res_score r = alpha * res_semantic r + (1 - alpha) * res_keyword r \<and>
                    res_keyword r = keyword_score kw (res_id r))
       (candidates sem kw alpha) \<and>
     list_all (\<lambda>r. res_semantic r = semantic_score sem (res_id r)) (candidates sem kw alpha) \<and>
     (\<forall>s. filter (\<lambda>r. res_score r = s)
            (sort_key (\<lambda>r. - res_score r) (candidates sem kw alpha))
          = filter (\<lambda>r. res_score r = s) (candidates sem kw alpha))"
proof (intro conjI allI)
  show "hybrid_search lower vsearch fts st query k alpha subject = Inr (hybrid_spec sem kw k alpha)"
    by (rule hybrid_search_spec [OF assms])
  show "sorted_wrt (\<lambda>a b. res_score b \<le> res_score a) (hybrid_spec sem kw k alpha)"
    by (rule hybrid_spec_sorted)
  show "length (hybrid_spec sem kw k alpha) \<le> nat k"
    by (simp add: hybrid_spec_def)
  show "set (hybrid_spec sem kw k alpha) \<subseteq> set (candidates sem kw alpha)"
    by (rule hybrid_spec_members)
  show "map res_id (candidates sem kw alpha) =
      map hit_id sem @ filter (\<lambda>i. i \<notin> set (map hit_id sem)) (map doc_id kw)"
    by (rule candidates_ids)
  show "list_all (\<lambda>r. res_score r = alpha * res_semantic r + (1 - alpha) * res_keyword r \<and>
                    res_keyword r = keyword_score kw (res_id r))
      (candidates sem kw alpha)"
    by (rule candidates_scores)
  show "list_all (\<lambda>r. res_semantic r = semantic_score sem (res_id r)) (candidates sem kw alpha)"
    by (rule candidates_semantic [OF assms(3)])
  show "filter (\<lambda>r. res_score r = s) (sort_key (\<lambda>r. - res_score r) (candidates sem kw alpha))
      = filter (\<lambda>r. res_score r = s) (candidates sem kw alpha)" for s
    by (rule hybrid_spec_ties)
qed

text \<open>
  The example index ranks chunk 3 before chunk 2, the keyword search finds chunk 1, and
  \<open>alpha = 1/2\<close>: chunks 3 and 1 both score \<open>1/2\<close>, and chunk 3 comes first.
\<close>

theorem hybrid_search_refines_witness:
  "hybrid_search ascii_lower ex_vsearch fts_first ex_store ''q'' 2 (1 / 2) None =
     Inr (hybrid_spec ex_semantic ex_keyword 2 (1 / 2)) \<and>
   map res_id (hybrid_spec ex_semantic ex_keyword 2 (1 / 2)) = [3, 1] \<and>
   map res_score (hybrid_spec ex_semantic ex_keyword 2 (1 / 2)) = [1 / 2, 1 / 2]"
proof -
  have s: "search_similarity ascii_lower ex_vsearch ex_store ''q'' 2 None = Inr ex_semantic" by code_simp
  have w: "search_keyword ascii_lower fts_first ex_store ''q'' 2 None = Inr ex_keyword" by code_simp
  have d: "distinct (map hit_id ex_semantic)" "distinct (map doc_id ex_keyword)" "(0::int) \<le> 2"
    by (simp_all add: ex_semantic_def ex_keyword_def)
  have i: "map res_id (hybrid_spec ex_semantic ex_keyword 2 (1 / 2)) = [3, 1]" by code_simp
  have r: "map res_score (hybrid_spec ex_semantic ex_keyword 2 (1 / 2)) = [1 / 2, 1 / 2]"
    by code_simp
  from hybrid_search_refines [OF s w d, of "1 / 2"] show ?thesis using i r by blast
qed

text \<open>
  Claim C1 as stated breaks that tie by ascending id, chunk 1 before chunk 3; the code
  returns chunk 3 before chunk 1.
\<close>

theorem hybrid_ties_cex:
  "search_similarity ascii_lower ex_vsearch ex_store ''q'' 2 None = Inr ex_semantic \<and>
   search_keyword ascii_lower fts_first ex_store ''q'' 2 None = Inr ex_keyword \<and>
   map_sum id (map res_id) (hybrid_search ascii_lower ex_vsearch fts_first ex_store ''q'' 2 (1 / 2) None)
     = Inr [3, 1] \<and>
   map res_id (hybrid_spec_by_id ex_semantic ex_keyword 2 (1 / 2)) = [1, 3]"
  by code_simp

text \<open>
  Claim C4, as amended. Under the conditions of C1, with \<open>alpha = 0\<close> the result lists
  the ids of the keyword search in its order, then the ids only the similarity search
  found, cut at \<open>k\<close>: it is the keyword ranking when the keyword search returns \<open>k\<close>
  results. With \<open>alpha = 1\<close>, and similarity scores that are descending and not negative,
  the result lists the ids of the similarity search in its order, then the ids only the
  keyword search found, cut at \<open>k\<close>: it is the similarity ranking when the similarity
  search returns \<open>k\<close> results.
\<close>

theorem hybrid_boundary:
  assumes "search_similarity lower vsearch st query k subject = Inr sem"
    and "search_keyword lower fts st query k subject = Inr kw"
    and "distinct (map hit_id sem)" and "distinct (map doc_id kw)" and "0 \<le> k"
  shows "(\<exists>rs. hybrid_search lower vsearch fts st query k 0 subject = Inr rs \<and>
        map res_id rs =
          take (nat k) (map doc_id kw @ filter (\<lambda>i. i \<notin> set (map doc_id kw)) (map hit_id sem)) \<and>
        (nat k \<le> length kw \<longrightarrow> map res_id rs = take (nat k) (map doc_id kw))) \<and>
     (sorted_wrt (\<lambda>a b. b \<le> a) (map hit_score sem) \<and> list_all (\<lambda>h. 0 \<le> hit_score h) sem \<longrightarrow>
        (\<exists>rs. hybrid_search lower vsearch fts st query k 1 subject = Inr rs \<and>
          map res_id rs =
            take (nat k) (map hit_id sem @ filter (\<lambda>i. i \<notin> set (map hit_id sem)) (map doc_id kw)) \<and>
          (nat k \<le> length sem \<longrightarrow> map res_id rs = take (nat k) (map hit_id sem))))"
proof (intro conjI impI)
  have "map res_id (hybrid_spec sem kw k 0) =
      take (nat k) (map doc_id kw @ filter (\<lambda>i. i \<notin> set (map doc_id kw)) (map hit_id sem))"
    by (rule hybrid_spec_keyword_ids [OF assms(3,4)])
  then show "\<exists>rs. hybrid_search lower vsearch fts st query k 0 subject = Inr rs \<and>
        map res_id rs =
          take (nat k) (map doc_id kw @ filter (\<lambda>i. i \<notin> set (map doc_id kw)) (map hit_id sem)) \<and>
        (nat k \<le> length kw \<longrightarrow> map res_id rs = take (nat k) (map doc_id kw))"
    using hybrid_search_spec [OF assms, of 0] by simp
next
  assume "sorted_wrt (\<lambda>a b. b \<le> a) (map hit_score sem) \<and> list_all (\<lambda>h. 0 \<le> hit_score h) sem"
  then have "map res_id (hybrid_spec sem kw k 1) =
      take (nat k) (map hit_id sem @ filter (\<lambda>i. i \<notin> set (map hit_id sem)) (map doc_id kw))"
    by (intro hybrid_spec_similarity_ids) simp_all
  then show "\<exists>rs. hybrid_search lower vsearch fts st query k 1 subject = Inr rs \<and>
      map res_id rs =
        take (nat k) (map hit_id sem @ filter (\<lambda>i. i \<notin> set (map hit_id sem)) (map doc_id kw)) \<and>
      (nat k \<le> length sem \<longrightarrow> map res_id rs = take (nat k) (map hit_id sem))"
    using hybrid_search_spec [OF assms, of 1] by simp
qed

text \<open>
  On the example, \<open>alpha = 0\<close> puts the keyword result, chunk 1, first, and \<open>alpha = 1\<close>
  returns the similarity ranking, chunks 3 and 2.
\<close>

theorem hybrid_boundary_witness:
  "map_sum id (map res_id) (hybrid_search ascii_lower ex_vsearch fts_first ex_store ''q'' 2 0 None) = Inr [1, 3] \<and>
   map_sum id (map res_id) (hybrid_search ascii_lower ex_vsearch fts_first ex_store ''q'' 2 1 None) = Inr [3, 2]"
proof -
  have s: "search_similarity ascii_lower ex_vsearch ex_store ''q'' 2 None = Inr ex_semantic" by code_simp
  have w: "search_keyword ascii_lower fts_first ex_store ''q'' 2 None = Inr ex_keyword" by code_simp
  have d: "distinct (map hit_id ex_semantic)" "distinct (map doc_id ex_keyword)" "(0::int) \<le> 2"
    by (simp_all add: ex_semantic_def ex_keyword_def)
  have o: "sorted_wrt (\<lambda>a b. b \<le> a) (map hit_score ex_semantic) \<and>
      list_all (\<lambda>h. 0 \<le> hit_score h) ex_semantic"
    by (simp add: ex_semantic_def)
  show ?thesis
    using hybrid_boundary [OF s w d] o
    by (auto simp: ex_semantic_def ex_keyword_def)
qed

text \<open>
  Claim C4 as stated fails on an empty vector index: the similarity search returns
  nothing, and \<open>hybridSearch\<close> with \<open>alpha = 1\<close> returns the keyword results.
\<close>

theorem hybrid_boundary_cex:
  "map_sum id (map hit_id) (search_similarity ascii_lower empty_vsearch ex_store ''q'' 2 None) = Inr [] \<and>
   map_sum id (map res_id) (hybrid_search ascii_lower empty_vsearch fts_all ex_store ''q'' 2 1 None) = Inr [1, 2]"
  by code_simp

subsection \<open>Embeddings\<close>


end
